theory Spec2Isabelle
  imports Main "HOL-Library.Word"
begin

section \<open>The Blynk client of BlynkLibESP32.py\<close>

text \<open>
  A shallow embedding of the protocol engine of \<^verbatim>\<open>src/BlynkLibESP32.py\<close>: the frame
  codec, the message id allocator, the rate-limited send, the buffered receive, the
  command dispatcher \<^verbatim>\<open>_handle_hw\<close>, the heartbeat monitor \<^verbatim>\<open>_server_alive\<close> and the two
  loops of \<^verbatim>\<open>run\<close>.

  Python integers are \<open>int\<close>, \<^verbatim>\<open>str\<close> is \<open>string\<close>, \<^verbatim>\<open>bytes\<close> is a list of 8-bit words,
  a dict is a map. Every \<^verbatim>\<open>raise\<close> is a value \<open>Inl (e, s)\<close>: the exception and the object
  as it was when the exception was raised (Python does not roll back the attributes
  already assigned). What the socket, the clocks and the pins answer is an explicit
  argument of the function that asks. What the client does to the outside world
  (bytes handed to the socket, the socket closed, lines printed, callbacks called, pins
  driven) is appended to the field \<open>trace\<close>.
\<close>

subsection \<open>Bytes, strings, exceptions\<close>

type_synonym byte = "8 word"
type_synonym bytes = "byte list"

datatype error =
    ValueError string
  | IndexError
  | KeyError int
  | UnicodeError
  | StructError
  | OSError int
  | AttributeError string

text \<open>\<^verbatim>\<open>bytes(s, "ascii")\<close> and \<^verbatim>\<open>b.decode("ascii")\<close>: both raise outside 0..127.\<close>

definition encode_ascii :: "string \<Rightarrow> error + bytes" where
  "encode_ascii s =
     (if \<forall>c \<in> set s. (of_char c :: nat) < 128
      then Inr (map (\<lambda>c. of_nat (of_char c)) s) else Inl UnicodeError)"

definition decode_ascii :: "bytes \<Rightarrow> error + string" where
  "decode_ascii b =
     (if \<forall>x \<in> set b. unat x < 128
      then Inr (map (\<lambda>x. char_of (unat x)) b) else Inl UnicodeError)"

text \<open>\<^verbatim>\<open>sep.join(xs)\<close> on strings and \<^verbatim>\<open>data.split(b"\0")\<close> on bytes. The split of
  Python never returns an empty list: the empty input gives one empty piece.\<close>

fun join :: "'a list \<Rightarrow> 'a list list \<Rightarrow> 'a list" where
  "join sep [] = []"
| "join sep [x] = x"
| "join sep (x # y # ys) = x @ sep @ join sep (y # ys)"

fun split_on :: "'a \<Rightarrow> 'a list \<Rightarrow> 'a list list" where
  "split_on z [] = [[]]"
| "split_on z (x # xs) =
     (if x = z then [] # split_on z xs
      else (case split_on z xs of
              [] \<Rightarrow> [[x]]
            | p # ps \<Rightarrow> (x # p) # ps))"

text \<open>\<^verbatim>\<open>list(map(f, xs))\<close> where \<open>f\<close> may raise: the first exception wins.\<close>

fun map_err :: "('a \<Rightarrow> error + 'b) \<Rightarrow> 'a list \<Rightarrow> error + 'b list" where
  "map_err f [] = Inr []"
| "map_err f (x # xs) =
     (case f x of
        Inl e \<Rightarrow> Inl e
      | Inr y \<Rightarrow> (case map_err f xs of Inl e \<Rightarrow> Inl e | Inr ys \<Rightarrow> Inr (y # ys)))"

subsection \<open>Decimal text of integers: \<^verbatim>\<open>str(n)\<close>, \<^verbatim>\<open>"%d" % n\<close> and \<^verbatim>\<open>int(s)\<close>\<close>

definition digit_char :: "int \<Rightarrow> char" where
  "digit_char d = char_of (48 + d)"

text \<open>The decimal digits of an integer that is not negative.\<close>

function str_nat :: "int \<Rightarrow> string" where
  "str_nat n = (if n < 10 then [digit_char n] else str_nat (n div 10) @ [digit_char (n mod 10)])"
  by pat_completeness auto
termination
  by (relation "measure nat") auto

definition str_int :: "int \<Rightarrow> string" where
  "str_int i = (if i < 0 then CHR ''-'' # str_nat (- i) else str_nat i)"

text \<open>The values the client formats into a frame with \<^verbatim>\<open>map(str, args)\<close>: strings,
  integers and \<^verbatim>\<open>None\<close> (what \<^verbatim>\<open>HwPin.analog_read\<close> returns on its second call).\<close>

datatype pyval = PStr string | PInt int | PNone

fun py_str :: "pyval \<Rightarrow> string" where
  "py_str (PStr s) = s"
| "py_str (PInt i) = str_int i"
| "py_str PNone = ''None''"

text \<open>\<^verbatim>\<open>int(s)\<close> on a string: surrounding whitespace is dropped, one sign is allowed, then
  decimal digits, with single underscores allowed between digits. Anything else is a
  ValueError.\<close>

definition is_space :: "char \<Rightarrow> bool" where
  "is_space c = (c \<in> set [CHR '' '', CHR 0x09, CHR 0x0A, CHR 0x0B, CHR 0x0C, CHR 0x0D])"

definition is_digit :: "char \<Rightarrow> bool" where
  "is_digit c = (48 \<le> (of_char c :: nat) \<and> (of_char c :: nat) \<le> 57)"

definition digit_val :: "char \<Rightarrow> int" where
  "digit_val c = int (of_char c) - 48"

text \<open>\<open>digits acc prev s\<close>: \<open>prev\<close> says that the character before was a digit.\<close>

fun digits :: "int \<Rightarrow> bool \<Rightarrow> string \<Rightarrow> int option" where
  "digits acc prev [] = (if prev then Some acc else None)"
| "digits acc prev (c # cs) =
     (if is_digit c then digits (acc * 10 + digit_val c) True cs
      else if c = CHR ''_'' \<and> prev then digits acc False cs
      else None)"

definition strip :: "string \<Rightarrow> string" where
  "strip s = rev (dropWhile is_space (rev (dropWhile is_space s)))"

definition py_int :: "string \<Rightarrow> error + int" where
  "py_int s =
     (let t = strip s;
          (neg, u) = (case t of
                        c # cs \<Rightarrow> if c = CHR ''-'' then (True, cs)
                                  else if c = CHR ''+'' then (False, cs) else (False, t)
                      | [] \<Rightarrow> (False, t))
      in case digits 0 False u of
           None \<Rightarrow> Inl (ValueError (''invalid literal for int(): '' @ s))
         | Some n \<Rightarrow> Inr (if neg then - n else n))"

subsection \<open>The frame header: \<^verbatim>\<open>struct.pack("!BHH", ...)\<close> and \<^verbatim>\<open>struct.unpack\<close>\<close>

abbreviation HDR_LEN :: int where "HDR_LEN \<equiv> 5"
abbreviation MAX_MSG_PER_SEC :: int where "MAX_MSG_PER_SEC \<equiv> 20"

abbreviation MSG_RSP :: int where "MSG_RSP \<equiv> 0"
abbreviation MSG_LOGIN :: int where "MSG_LOGIN \<equiv> 2"
abbreviation MSG_PING :: int where "MSG_PING \<equiv> 6"
abbreviation MSG_BRIDGE :: int where "MSG_BRIDGE \<equiv> 15"
abbreviation MSG_HW_INFO :: int where "MSG_HW_INFO \<equiv> 17"
abbreviation MSG_HW :: int where "MSG_HW \<equiv> 20"

abbreviation STA_SUCCESS :: int where "STA_SUCCESS \<equiv> 200"

abbreviation HB_PERIOD :: int where "HB_PERIOD \<equiv> 10"
abbreviation NON_BLK_SOCK :: int where "NON_BLK_SOCK \<equiv> 0"
abbreviation MIN_SOCK_TO :: int where "MIN_SOCK_TO \<equiv> 1"
abbreviation MAX_SOCK_TO :: int where "MAX_SOCK_TO \<equiv> 5"
abbreviation RECONNECT_DELAY :: int where "RECONNECT_DELAY \<equiv> 1"
abbreviation TASK_PERIOD_RES :: int where "TASK_PERIOD_RES \<equiv> 50"
abbreviation IDLE_TIME_MS :: int where "IDLE_TIME_MS \<equiv> 5"
abbreviation MAX_TX_RETRIES :: nat where "MAX_TX_RETRIES \<equiv> 3"
abbreviation EAGAIN :: int where "EAGAIN \<equiv> 11"

text \<open>Integers are big-endian. A field outside its range is a \<^verbatim>\<open>struct.error\<close>, as
  in Python's \<^verbatim>\<open>struct\<close>; the properties below that pack a header are stated for fields in
  range, where every implementation of \<^verbatim>\<open>struct\<close> agrees.\<close>

definition pack_hdr :: "int \<Rightarrow> int \<Rightarrow> int \<Rightarrow> error + bytes" where
  "pack_hdr t i l =
     (if 0 \<le> t \<and> t \<le> 255 \<and> 0 \<le> i \<and> i \<le> 65535 \<and> 0 \<le> l \<and> l \<le> 65535
      then Inr [of_int t, of_int (i div 256), of_int (i mod 256),
                of_int (l div 256), of_int (l mod 256)]
      else Inl StructError)"

fun unpack_hdr :: "bytes \<Rightarrow> error + (int \<times> int \<times> int)" where
  "unpack_hdr [t, a, b, c, d] =
     Inr (uint t, uint a * 256 + uint b, uint c * 256 + uint d)"
| "unpack_hdr _ = Inl StructError"


subsection \<open>The client object\<close>

datatype conn_state = DISCONNECTED | CONNECTING | AUTHENTICATING | AUTHENTICATED

text \<open>A callback is opaque: the model records that it is called and with which
  arguments. What the callback itself does is the application's code.\<close>

type_synonym callback = string

record VrPin =
  vr_read :: "callback option"
  vr_write :: "callback option"

record HwPin =
  hw_mode :: string
  hw_pull :: string
  hw_function :: string
  hw_name :: int

datatype event =
    ConnOpen
  | ConnSetTimeout int
  | ConnSend bytes
  | ConnClose
  | Print string
  | PrintParams "string list"
  | Call callback "string list"
  | WdtFeed
  | PinInit int bool "bool option"
  | AdcInit int
  | PwmInit int
  | PinWrite int int
  | PwmDuty int int

record blynk =
  wdt :: bool
  vr_pins :: "int \<rightharpoonup> VrPin"
  do_connect :: bool
  on_connect :: "callback option"
  task :: "callback option"
  task_period :: int
  token :: bytes
  server :: string
  port :: int
  ssl :: bool
  state :: conn_state
  start_time :: int
  task_millis :: int
  hw_pins :: "int \<rightharpoonup> HwPin"
  rx_data :: bytes
  msg_id :: int
  pins_configured :: bool
  timeout :: "int option"
  tx_count :: int
  m_time :: int
  hb_time :: int
  last_hb_id :: int
  has_conn :: bool
  trace :: "event list"

type_synonym 'a result = "(error \<times> blynk) + 'a"

definition emit :: "blynk \<Rightarrow> event list \<Rightarrow> blynk" where
  "emit s es = s\<lparr>trace := trace s @ es\<rparr>"

subsection \<open>\<^verbatim>\<open>_new_msg_id\<close> and \<^verbatim>\<open>_format_msg\<close>\<close>

definition new_msg_id :: "blynk \<Rightarrow> int \<times> blynk" where
  "new_msg_id s =
     (let m = msg_id s + 1;
          m' = (if m > 0xFFFF then 1 else m)
      in (m', s\<lparr>msg_id := m'\<rparr>))"

text \<open>The arguments of \<^verbatim>\<open>struct.pack\<close> are evaluated before it is called, so the id is
  taken even when the packing fails.\<close>

definition format_msg :: "blynk \<Rightarrow> int \<Rightarrow> pyval list \<Rightarrow> (bytes \<times> blynk) result" where
  "format_msg s msg_type args =
     (case encode_ascii (join [CHR 0x00] (map py_str args)) of
        Inl e \<Rightarrow> Inl (e, s)
      | Inr data \<Rightarrow>
          (let (i, s') = new_msg_id s
           in case pack_hdr msg_type i (int (length data)) of
                Inl e \<Rightarrow> Inl (e, s')
              | Inr h \<Rightarrow> Inr (h @ data, s')))"

subsection \<open>\<^verbatim>\<open>_send\<close>, \<^verbatim>\<open>_recv\<close>, \<^verbatim>\<open>_close\<close>\<close>

text \<open>What \<^verbatim>\<open>conn.send\<close> does on one attempt: it takes the data, or raises a socket error
  with the given errno. The argument \<open>outs\<close> of \<open>send\<close> gives the outcome of each attempt of
  the retry loop, by the value of \<^verbatim>\<open>retries\<close>.\<close>

datatype send_result = SendOk | SendErr int

function send_loop :: "blynk \<Rightarrow> bytes \<Rightarrow> (nat \<Rightarrow> send_result) \<Rightarrow> nat \<Rightarrow> blynk result" where
  "send_loop s data outs retries =
     (if retries \<le> MAX_TX_RETRIES then
        (case outs retries of
           SendOk \<Rightarrow> Inr (emit (s\<lparr>tx_count := tx_count s + 1\<rparr>) [ConnSend data])
         | SendErr e \<Rightarrow>
             if e \<noteq> EAGAIN then Inl (OSError e, s)
             else send_loop s data outs (retries + 1))
      else Inr s)"
  by pat_completeness auto
termination
  by (relation "measure (\<lambda>(s, d, outs, r). 4 - r)") auto

definition send :: "blynk \<Rightarrow> bytes \<Rightarrow> bool \<Rightarrow> (nat \<Rightarrow> send_result) \<Rightarrow> blynk result" where
  "send s data send_anyway outs =
     (if tx_count s < MAX_MSG_PER_SEC \<or> send_anyway then send_loop s data outs 0
      else Inr s)"

text \<open>What \<^verbatim>\<open>conn.recv(length)\<close> does: it returns at most \<open>length\<close> bytes, or raises
  ETIMEDOUT, EAGAIN, or another OSError.\<close>

datatype recv_result = RecvData bytes | RecvTimedOut | RecvAgain | RecvErr int

definition settimeout :: "blynk \<Rightarrow> int \<Rightarrow> blynk" where
  "settimeout s t =
     (if Some t \<noteq> timeout s then emit (s\<lparr>timeout := Some t\<rparr>) [ConnSetTimeout t] else s)"

definition recv :: "blynk \<Rightarrow> nat \<Rightarrow> int \<Rightarrow> recv_result \<Rightarrow> (bytes \<times> blynk) result" where
  "recv s len tmo r =
     (let s1 = settimeout s tmo
      in case r of
           RecvTimedOut \<Rightarrow> Inr ([], s1)
         | RecvAgain \<Rightarrow> Inr ([], s1)
         | RecvErr e \<Rightarrow> Inl (OSError e, s1)
         | RecvData d \<Rightarrow>
             (let s2 = s1\<lparr>rx_data := rx_data s1 @ take len d\<rparr>
              in if length (rx_data s2) \<ge> len
                 then Inr (take len (rx_data s2), s2\<lparr>rx_data := drop len (rx_data s2)\<rparr>)
                 else Inr ([], s2)))"

definition close :: "blynk \<Rightarrow> string option \<Rightarrow> blynk" where
  "close s emsg =
     (let s1 = emit s [ConnClose];
          s2 = s1\<lparr>state := DISCONNECTED\<rparr>
      in case emsg of
           None \<Rightarrow> s2
         | Some m \<Rightarrow> if m \<noteq> [] then emit s2 [Print (''Error: '' @ m @ '', connection closed'')]
                     else s2)"

subsection \<open>The class \<^verbatim>\<open>HwPin\<close>\<close>

text \<open>The objects of \<^verbatim>\<open>machine\<close> (Pin, ADC, PWM) are the hardware: their creation and
  the values written are events, the values read are arguments. A HwPin lives in
  \<^verbatim>\<open>_hw_pins\<close> under its pin number and nowhere else, so its methods update that entry.\<close>

definition TimerMap :: "int \<rightharpoonup> int" where
  "TimerMap = [9 \<mapsto> 10, 10 \<mapsto> 12, 11 \<mapsto> 13, 24 \<mapsto> 14, 25 \<mapsto> 25]"

definition ADCMap :: "int \<rightharpoonup> int" where
  "ADCMap = [2 \<mapsto> 36, 3 \<mapsto> 39, 4 \<mapsto> 34, 5 \<mapsto> 35]"

definition HwPin_init :: "int \<Rightarrow> string \<Rightarrow> string \<Rightarrow> HwPin" where
  "HwPin_init pin_num m p = \<lparr>hw_mode = m, hw_pull = p, hw_function = [], hw_name = pin_num\<rparr>"

definition config :: "HwPin \<Rightarrow> error + event" where
  "config p =
     (if hw_function p = ''dig'' then
        Inr (PinInit (hw_name p) (hw_mode p = ''out'')
               (if hw_pull p = ''pu'' then Some True
                else if hw_pull p = ''pd'' then Some False else None))
      else if hw_function p = ''ana'' then
        (case ADCMap (hw_name p) of
           None \<Rightarrow> Inl (KeyError (hw_name p))
         | Some ch \<Rightarrow> Inr (AdcInit ch))
      else
        (case TimerMap (hw_name p) of
           None \<Rightarrow> Inl (KeyError (hw_name p))
         | Some ch \<Rightarrow> Inr (PwmInit ch)))"

text \<open>\<open>set_function s k p f\<close>: the test \<^verbatim>\<open>if self._function != f\<close> with its two
  assignments; the result says whether the pin had to be configured.\<close>

definition set_function :: "blynk \<Rightarrow> int \<Rightarrow> HwPin \<Rightarrow> string \<Rightarrow> (bool \<times> blynk) result" where
  "set_function s k p f =
     (if hw_function p \<noteq> f then
        (let p' = p\<lparr>hw_function := f\<rparr>;
             s1 = s\<lparr>hw_pins := (hw_pins s)(k \<mapsto> p')\<rparr>
         in case config p' of
              Inl e \<Rightarrow> Inl (e, s1)
            | Inr ev \<Rightarrow> Inr (True, emit s1 [ev]))
      else Inr (False, s))"

definition digital_read :: "blynk \<Rightarrow> int \<Rightarrow> HwPin \<Rightarrow> int \<Rightarrow> (pyval \<times> blynk) result" where
  "digital_read s k p rd =
     (case set_function s k p ''dig'' of
        Inl e \<Rightarrow> Inl e
      | Inr (_, s1) \<Rightarrow> Inr (PInt rd, s1))"

definition digital_write :: "blynk \<Rightarrow> int \<Rightarrow> HwPin \<Rightarrow> int \<Rightarrow> blynk result" where
  "digital_write s k p v =
     (case set_function s k p ''dig'' of
        Inl e \<Rightarrow> Inl e
      | Inr (_, s1) \<Rightarrow> Inr (emit s1 [PinWrite (hw_name p) v]))"

text \<open>\<^verbatim>\<open>analog_read\<close> returns inside its \<^verbatim>\<open>if\<close>: a pin already in function "ana" gives
  \<^verbatim>\<open>None\<close>.\<close>

definition analog_read :: "blynk \<Rightarrow> int \<Rightarrow> HwPin \<Rightarrow> int \<Rightarrow> (pyval \<times> blynk) result" where
  "analog_read s k p rd =
     (case set_function s k p ''ana'' of
        Inl e \<Rightarrow> Inl e
      | Inr (fresh, s1) \<Rightarrow> Inr (if fresh then PInt rd else PNone, s1))"

definition analog_write :: "blynk \<Rightarrow> int \<Rightarrow> HwPin \<Rightarrow> int \<Rightarrow> blynk result" where
  "analog_write s k p v =
     (case set_function s k p ''pwm'' of
        Inl e \<Rightarrow> Inl e
      | Inr (fresh, s1) \<Rightarrow> Inr (if fresh then s1 else emit s1 [PwmDuty (hw_name p) v]))"

subsection \<open>The dispatcher \<^verbatim>\<open>_handle_hw\<close>\<close>

text \<open>\<^verbatim>\<open>xs[0::2]\<close>, so that \<^verbatim>\<open>zip(params[0::2], params[1::2])\<close> is
  \<open>zip (stride2 params) (stride2 (tl params))\<close>.\<close>

fun stride2 :: "'a list \<Rightarrow> 'a list" where
  "stride2 [] = []"
| "stride2 [x] = [x]"
| "stride2 (x # y # xs) = x # stride2 xs"

text \<open>\<^verbatim>\<open>int(params.pop(0))\<close>: IndexError on an empty list, ValueError on a bad numeral.\<close>

definition pop_int :: "blynk \<Rightarrow> string list \<Rightarrow> (int \<times> string list) result" where
  "pop_int s params =
     (case params of
        [] \<Rightarrow> Inl (IndexError, s)
      | p # ps \<Rightarrow> (case py_int p of Inl e \<Rightarrow> Inl (e, s) | Inr i \<Rightarrow> Inr (i, ps)))"

definition get_hw_pin :: "blynk \<Rightarrow> int \<Rightarrow> HwPin result" where
  "get_hw_pin s pin = (case hw_pins s pin of None \<Rightarrow> Inl (KeyError pin, s) | Some p \<Rightarrow> Inr p)"

fun pm_loop :: "blynk \<Rightarrow> (string \<times> string) list \<Rightarrow> blynk result" where
  "pm_loop s [] = Inr s"
| "pm_loop s ((pin, mode) # rest) =
     (case py_int pin of
        Inl e \<Rightarrow> Inl (e, s)
      | Inr pin \<Rightarrow>
          if mode \<noteq> ''in'' \<and> mode \<noteq> ''out'' \<and> mode \<noteq> ''pu'' \<and> mode \<noteq> ''pd''
          then Inl (ValueError (''Unknown pin '' @ str_int pin @ '' mode: '' @ mode), s)
          else pm_loop (s\<lparr>hw_pins := (hw_pins s)(pin \<mapsto> HwPin_init pin mode mode)\<rparr>) rest)"

definition handle_hw :: "blynk \<Rightarrow> bytes \<Rightarrow> int \<Rightarrow> (nat \<Rightarrow> send_result) \<Rightarrow> blynk result" where
  "handle_hw s0 data rd outs =
     (case map_err decode_ascii (split_on 0 data) of
        Inl e \<Rightarrow> Inl (e, s0)
      | Inr [] \<Rightarrow> Inl (IndexError, s0)
      | Inr (cmd # params) \<Rightarrow>
          (let s = emit s0 [PrintParams params] in
           if cmd = ''info'' then Inr s
           else if cmd = ''pm'' then
             (case pm_loop s (zip (stride2 params) (stride2 (tl params))) of
                Inl e \<Rightarrow> Inl e
              | Inr s1 \<Rightarrow> Inr (s1\<lparr>pins_configured := True\<rparr>))
           else if cmd = ''vw'' then
             (case pop_int s params of
                Inl e \<Rightarrow> Inl e
              | Inr (pin, vals) \<Rightarrow>
                  (case (case vr_pins s pin of None \<Rightarrow> None | Some vp \<Rightarrow> vr_write vp) of
                     Some w \<Rightarrow> Inr (emit s (map (\<lambda>v. Call w [v]) vals))
                   | None \<Rightarrow>
                       Inr (emit s [Print (''Warning: Virtual write to unregistered pin ''
                                           @ str_int pin)])))
           else if cmd = ''vr'' then
             (case pop_int s params of
                Inl e \<Rightarrow> Inl e
              | Inr (pin, _) \<Rightarrow>
                  (case (case vr_pins s pin of None \<Rightarrow> None | Some vp \<Rightarrow> vr_read vp) of
                     Some r \<Rightarrow> Inr (emit s [Call r []])
                   | None \<Rightarrow>
                       Inr (emit s [Print (''Warning: Virtual read from unregistered pin ''
                                           @ str_int pin)])))
           else if pins_configured s then
             (if cmd = ''dw'' then
                (case pop_int s params of
                   Inl e \<Rightarrow> Inl e
                 | Inr (pin, ps) \<Rightarrow>
                     (case pop_int s ps of
                        Inl e \<Rightarrow> Inl e
                      | Inr (val, _) \<Rightarrow>
                          (case get_hw_pin s pin of
                             Inl e \<Rightarrow> Inl e
                           | Inr p \<Rightarrow> digital_write s pin p val)))
              else if cmd = ''aw'' then
                (case pop_int s params of
                   Inl e \<Rightarrow> Inl e
                 | Inr (pin, ps) \<Rightarrow>
                     (case pop_int s ps of
                        Inl e \<Rightarrow> Inl e
                      | Inr (val, _) \<Rightarrow>
                          (case get_hw_pin s pin of
                             Inl e \<Rightarrow> Inl e
                           | Inr p \<Rightarrow> analog_write s pin p val)))
              else if cmd = ''dr'' then
                (case pop_int s params of
                   Inl e \<Rightarrow> Inl e
                 | Inr (pin, _) \<Rightarrow>
                     (case get_hw_pin s pin of
                        Inl e \<Rightarrow> Inl e
                      | Inr p \<Rightarrow>
                          (case digital_read s pin p rd of
                             Inl e \<Rightarrow> Inl e
                           | Inr (val, s1) \<Rightarrow>
                               (case format_msg s1 MSG_HW [PStr ''dw'', PInt pin, val] of
                                  Inl e \<Rightarrow> Inl e
                                | Inr (m, s2) \<Rightarrow> send s2 m False outs))))
              else if cmd = ''ar'' then
                (case pop_int s params of
                   Inl e \<Rightarrow> Inl e
                 | Inr (pin, _) \<Rightarrow>
                     (case get_hw_pin s pin of
                        Inl e \<Rightarrow> Inl e
                      | Inr p \<Rightarrow>
                          (case analog_read s pin p rd of
                             Inl e \<Rightarrow> Inl e
                           | Inr (val, s1) \<Rightarrow>
                               (case format_msg s1 MSG_HW [PStr ''aw'', PInt pin, val] of
                                  Inl e \<Rightarrow> Inl e
                                | Inr (m, s2) \<Rightarrow> send s2 m False outs))))
              else Inl (ValueError (''Unknown message cmd: '' @ cmd), s))
           else Inr s))"

subsection \<open>\<^verbatim>\<open>_server_alive\<close> and \<^verbatim>\<open>_run_task\<close>\<close>

definition feed :: "blynk \<Rightarrow> blynk" where
  "feed s = (if wdt s then emit s [WdtFeed] else s)"

text \<open>\<open>c_time\<close> is \<^verbatim>\<open>int(time.time())\<close>.\<close>

definition server_alive :: "blynk \<Rightarrow> int \<Rightarrow> (nat \<Rightarrow> send_result) \<Rightarrow> (bool \<times> blynk) result" where
  "server_alive s c_time outs =
     (if m_time s \<noteq> c_time then
        (let s1 = feed (s\<lparr>m_time := c_time, tx_count := 0\<rparr>) in
         if last_hb_id s1 \<noteq> 0 \<and> c_time - hb_time s1 \<ge> MAX_SOCK_TO then Inr (False, s1)
         else if c_time - hb_time s1 \<ge> HB_PERIOD \<and> state s1 = AUTHENTICATED then
           (let (i, s2) = new_msg_id (s1\<lparr>hb_time := c_time\<rparr>);
                s3 = s2\<lparr>last_hb_id := i\<rparr>
            in case pack_hdr MSG_PING (last_hb_id s3) 0 of
                 Inl e \<Rightarrow> Inl (e, s3)
               | Inr h \<Rightarrow>
                   (case send s3 h True outs of
                      Inl e \<Rightarrow> Inl e
                    | Inr s4 \<Rightarrow> Inr (True, s4)))
         else Inr (True, s1))
      else Inr (True, s))"

text \<open>\<open>c_millis\<close> is \<^verbatim>\<open>time.ticks_ms()\<close>.\<close>

definition run_task :: "blynk \<Rightarrow> int \<Rightarrow> blynk" where
  "run_task s c_millis =
     (case task s of
        None \<Rightarrow> s
      | Some t \<Rightarrow>
          if c_millis - task_millis s \<ge> task_period s
          then emit (s\<lparr>task_millis := task_millis s + task_period s\<rparr>) [Call t []]
          else s)"

text \<open>\<^verbatim>\<open>sleep_from_until\<close> waits on the hardware clock; its value is \<open>start + delay\<close>.
  The waiting itself, like \<^verbatim>\<open>time.sleep\<close>, is time passing and has no other effect.\<close>

definition sleep_from_until :: "int \<Rightarrow> int \<Rightarrow> int" where
  "sleep_from_until start delay = start + delay"

subsection \<open>The method \<^verbatim>\<open>run\<close>\<close>

text \<open>What the outside world answers during one iteration of a loop of \<^verbatim>\<open>run\<close>.\<close>

record env =
  tick :: int
  import_ok :: bool
  socket_ok :: bool
  connect_ok :: bool
  rx_hdr :: recv_result
  rx_body :: recv_result
  tx1 :: "nat \<Rightarrow> send_result"
  tx2 :: "nat \<Rightarrow> send_result"
  clock :: int
  pin_in :: int

text \<open>The assignments at the head of \<^verbatim>\<open>run\<close>; \<open>t0\<close> is \<^verbatim>\<open>time.ticks_ms()\<close>.\<close>

definition run_init :: "blynk \<Rightarrow> int \<Rightarrow> blynk" where
  "run_init s t0 =
     s\<lparr>start_time := t0, task_millis := t0, hw_pins := Map.empty, rx_data := [],
       msg_id := 1, pins_configured := False, timeout := None, tx_count := 0, m_time := 0,
       state := DISCONNECTED\<rparr>"

text \<open>The login exchange, from \<^verbatim>\<open>self.state = AUTHENTICATING\<close> to the on-connect
  callback.\<close>

definition login :: "blynk \<Rightarrow> env \<Rightarrow> blynk result" where
  "login s ev =
     (let (i, s1) = new_msg_id (s\<lparr>state := AUTHENTICATING\<rparr>) in
      case pack_hdr MSG_LOGIN i (int (length (token s1))) of
        Inl e \<Rightarrow> Inl (e, s1)
      | Inr hdr \<Rightarrow>
          (case send (emit s1 [Print ''Blynk connection successful, authenticating...''])
                  (hdr @ token s1) True (tx1 ev) of
             Inl e \<Rightarrow> Inl e
           | Inr s2 \<Rightarrow>
               (case recv s2 (nat HDR_LEN) MAX_SOCK_TO (rx_hdr ev) of
                  Inl e \<Rightarrow> Inl e
                | Inr (data, s3) \<Rightarrow>
                    if data = [] then Inr (close s3 (Some ''Blynk authentication timed out''))
                    else
                      (case unpack_hdr data of
                         Inl e \<Rightarrow> Inl (e, s3)
                       | Inr (msg_type, mid, status) \<Rightarrow>
                           if status \<noteq> STA_SUCCESS \<or> mid = 0
                           then Inr (close s3 (Some ''Blynk authentication failed''))
                           else
                             (case format_msg (s3\<lparr>state := AUTHENTICATED\<rparr>) MSG_HW_INFO
                                     [PStr ''h-beat'', PInt HB_PERIOD, PStr ''dev'',
                                      PStr ''WiPy'', PStr ''cpu'', PStr ''CC3200''] of
                                Inl e \<Rightarrow> Inl e
                              | Inr (m, s4) \<Rightarrow>
                                  (case send s4 m False (tx2 ev) of
                                     Inl e \<Rightarrow> Inl e
                                   | Inr s5 \<Rightarrow>
                                       (let s6 = emit s5 [Print ''Access granted, happy Blynking!'']
                                        in Inr (case on_connect s6 of
                                                  None \<Rightarrow> s6
                                                | Some f \<Rightarrow> emit s6 [Call f []]))))))))"

text \<open>The attribute \<^verbatim>\<open>conn\<close> is created by the first assignment to it in \<^verbatim>\<open>run\<close>, and
  \<open>has_conn\<close> says whether it exists. \<^verbatim>\<open>_close\<close> begins with \<^verbatim>\<open>self.conn.close()\<close>,
  which raises AttributeError while there is no such attribute. Every other call of
  \<^verbatim>\<open>_close\<close> in \<^verbatim>\<open>run\<close> follows the assignment, and is \<open>close\<close>.\<close>

definition close_or_raise :: "blynk \<Rightarrow> string option \<Rightarrow> blynk result" where
  "close_or_raise s emsg =
     (if has_conn s then Inr (close s emsg) else Inl (AttributeError ''conn'', s))"

text \<open>One iteration of \<^verbatim>\<open>while self.state != AUTHENTICATED\<close>. The \<^verbatim>\<open>try\<close> block imports
  \<^verbatim>\<open>ssl\<close> when it is used, prints, creates the socket (and wraps it), assigns it to
  \<^verbatim>\<open>self.conn\<close> and connects; \<open>import_ok\<close>, \<open>socket_ok\<close> and \<open>connect_ok\<close> say which of
  these raise. Any exception there is caught and answered by \<^verbatim>\<open>_close\<close>, whose own
  exception nothing catches. \<open>ConnOpen\<close> is the assignment of a new socket to
  \<^verbatim>\<open>self.conn\<close>.\<close>

definition auth_iter :: "blynk \<Rightarrow> env \<Rightarrow> blynk result" where
  "auth_iter s ev =
     (let s1 = feed (run_task s (tick ev)) in
      if do_connect s1 then
        (let s2 = s1\<lparr>state := CONNECTING\<rparr>;
             s3 = emit s2 [Print ((if ssl s1 then ''SSL'' else ''TCP'') @ '': Connecting to ''
                                  @ server s1 @ '':'' @ str_int (port s1))];
             emsg = Some ''connection with the Blynk servers failed''
         in if ssl s1 \<and> \<not> import_ok ev then close_or_raise s2 emsg
            else if \<not> socket_ok ev then close_or_raise s3 emsg
            else
              (let s4 = emit (s3\<lparr>has_conn := True\<rparr>) [ConnOpen]
               in if \<not> connect_ok ev then Inr (close s4 emsg)
                  else login s4 ev))
      else Inr (s1\<lparr>start_time := sleep_from_until (start_time s1) TASK_PERIOD_RES\<rparr>))"

text \<open>The three assignments between the two loops.\<close>

definition session_init :: "blynk \<Rightarrow> blynk" where
  "session_init s = s\<lparr>hb_time := 0, last_hb_id := 0, tx_count := 0\<rparr>"

text \<open>The first half of an iteration of \<^verbatim>\<open>while self._do_connect\<close>: the header is read
  and the frame handled. The boolean of the result is \<^verbatim>\<open>break\<close>.\<close>

definition dispatch :: "blynk \<Rightarrow> env \<Rightarrow> (bool \<times> blynk) result" where
  "dispatch s ev =
     (case recv s (nat HDR_LEN) NON_BLK_SOCK (rx_hdr ev) of
        Inl e \<Rightarrow> Inl e
      | Inr (data, s1) \<Rightarrow>
          if data \<noteq> [] then
            (case unpack_hdr data of
               Inl e \<Rightarrow> Inl (e, s1)
             | Inr (msg_type, mid, msg_len) \<Rightarrow>
                 if mid = 0 then Inr (True, close s1 (Some (''invalid msg id '' @ str_int mid)))
                 else if msg_type = MSG_RSP then
                   Inr (False, if mid = last_hb_id s1 then s1\<lparr>last_hb_id := 0\<rparr> else s1)
                 else if msg_type = MSG_PING then
                   (case pack_hdr MSG_RSP mid STA_SUCCESS of
                      Inl e \<Rightarrow> Inl (e, s1)
                    | Inr h \<Rightarrow>
                        (case send s1 h True (tx1 ev) of
                           Inl e \<Rightarrow> Inl e
                         | Inr s2 \<Rightarrow> Inr (False, s2)))
                 else if msg_type = MSG_HW \<or> msg_type = MSG_BRIDGE then
                   (case recv s1 (nat msg_len) MIN_SOCK_TO (rx_body ev) of
                      Inl e \<Rightarrow> Inl e
                    | Inr (body, s2) \<Rightarrow>
                        if body \<noteq> [] then
                          (case handle_hw s2 body (pin_in ev) (tx1 ev) of
                             Inl e \<Rightarrow> Inl e
                           | Inr s3 \<Rightarrow> Inr (False, s3))
                        else Inr (False, s2))
                 else Inr (True, close s1 (Some (''unknown message type '' @ str_int msg_type))))
          else Inr (False, s1\<lparr>start_time := sleep_from_until (start_time s1) IDLE_TIME_MS\<rparr>))"

text \<open>One iteration of \<^verbatim>\<open>while self._do_connect\<close>.\<close>

definition inner_iter :: "blynk \<Rightarrow> env \<Rightarrow> (bool \<times> blynk) result" where
  "inner_iter s ev =
     (case dispatch s ev of
        Inl e \<Rightarrow> Inl e
      | Inr (brk, s1) \<Rightarrow>
          if brk then Inr (True, s1)
          else
            (case server_alive s1 (clock ev) (tx2 ev) of
               Inl e \<Rightarrow> Inl e
             | Inr (alive, s2) \<Rightarrow>
                 if \<not> alive then Inr (True, close s2 (Some ''Blynk server is offline''))
                 else Inr (False, run_task s2 (tick ev))))"

text \<open>What follows the inner loop when it is left.\<close>

definition after_session :: "blynk \<Rightarrow> blynk" where
  "after_session s =
     (if \<not> do_connect s
      then emit (close s None) [Print ''Blynk disconnection requested by the user'']
      else s)"

text \<open>
  One step of \<^verbatim>\<open>run\<close> is one iteration of the loop the client is in. At the head of an
  iteration the client is in the inner loop exactly when its state is AUTHENTICATED:
  the first loop is left only in that state, and the inner loop is left only after
  \<^verbatim>\<open>_close\<close>. \<^verbatim>\<open>run\<close> never returns, so a run is a list of steps; an exception that
  no \<^verbatim>\<open>try\<close> catches ends it.
\<close>

definition run_step :: "blynk \<Rightarrow> env \<Rightarrow> blynk result" where
  "run_step s ev =
     (if state s \<noteq> AUTHENTICATED then
        (case auth_iter s ev of
           Inl e \<Rightarrow> Inl e
         | Inr s1 \<Rightarrow>
             if state s1 = AUTHENTICATED then
               (let s2 = session_init s1 in
                Inr (if do_connect s2 then s2 else after_session s2))
             else Inr s1)
      else if do_connect s then
        (case inner_iter s ev of
           Inl e \<Rightarrow> Inl e
         | Inr (brk, s1) \<Rightarrow> Inr (if brk then after_session s1 else s1))
      else Inr (after_session s))"

fun run_steps :: "blynk \<Rightarrow> env list \<Rightarrow> blynk result" where
  "run_steps s [] = Inr s"
| "run_steps s (ev # evs) =
     (case run_step s ev of
        Inl e \<Rightarrow> Inl e
      | Inr s1 \<Rightarrow> run_steps s1 evs)"

subsection \<open>The constructor and the registration of virtual pins\<close>

text \<open>\<^verbatim>\<open>Blynk(token)\<close> with the default arguments. The attributes that \<^verbatim>\<open>__init__\<close> does
  not create (\<^verbatim>\<open>run\<close> creates them) have the values \<^verbatim>\<open>run\<close> first gives them.\<close>

definition Blynk_init :: "bytes \<Rightarrow> blynk" where
  "Blynk_init tok =
     \<lparr>wdt = True, vr_pins = Map.empty, do_connect = True, on_connect = None, task = None,
      task_period = 0, token = tok, server = ''blynk-cloud.com'', port = 8442, ssl = False,
      state = DISCONNECTED, start_time = 0, task_millis = 0, hw_pins = Map.empty,
      rx_data = [], msg_id = 1, pins_configured = False, timeout = None, tx_count = 0,
      m_time = 0, hb_time = 0, last_hb_id = 0, has_conn = False, trace = []\<rparr>"

abbreviation MAX_VIRTUAL_PINS :: int where "MAX_VIRTUAL_PINS \<equiv> 32"

definition add_virtual_pin :: "blynk \<Rightarrow> int \<Rightarrow> callback option \<Rightarrow> callback option \<Rightarrow> blynk result" where
  "add_virtual_pin s pin r w =
     (if 0 \<le> pin \<and> pin < MAX_VIRTUAL_PINS
      then Inr (s\<lparr>vr_pins := (vr_pins s)(pin \<mapsto> \<lparr>vr_read = r, vr_write = w\<rparr>)\<rparr>)
      else Inl (ValueError ''the pin must be an integer between 0 and 31'', s))"

subsection \<open>Notions used by the properties\<close>

text \<open>The ids returned by \<open>n\<close> consecutive calls of \<^verbatim>\<open>_new_msg_id\<close>.\<close>

fun allocs :: "blynk \<Rightarrow> nat \<Rightarrow> int list" where
  "allocs s 0 = []"
| "allocs s (Suc n) = (let (i, s') = new_msg_id s in i # allocs s' n)"

text \<open>Decoding the bytes of one frame, with the steps \<^verbatim>\<open>run\<close> and \<^verbatim>\<open>_handle_hw\<close> take:
  unpack the five header bytes, take \<open>length\<close> body bytes, split them on NUL and decode
  each piece.\<close>

definition decode_frame :: "bytes \<Rightarrow> error + (int \<times> int \<times> string list)" where
  "decode_frame b =
     (case unpack_hdr (take 5 b) of
        Inl e \<Rightarrow> Inl e
      | Inr (t, i, l) \<Rightarrow>
          (case map_err decode_ascii (split_on 0 (take (nat l) (drop 5 b))) of
             Inl e \<Rightarrow> Inl e
           | Inr args \<Rightarrow> Inr (t, i, args)))"

definition roundtrip :: "blynk \<Rightarrow> int \<Rightarrow> pyval list \<Rightarrow> error + (int \<times> int \<times> string list)" where
  "roundtrip s t args =
     (case format_msg s t args of
        Inl (e, _) \<Rightarrow> Inl e
      | Inr (b, _) \<Rightarrow> decode_frame b)"

text \<open>The ASCII bytes of a string whose characters are all below 128.\<close>

definition enc :: "string \<Rightarrow> bytes" where
  "enc s = map (\<lambda>c. of_nat (of_char c)) s"

text \<open>What can be observed of a result: the exception if one left the function, the
  connection state, the flag \<^verbatim>\<open>_pins_configured\<close> and the trace.\<close>

definition outcome :: "blynk result \<Rightarrow> error option \<times> conn_state \<times> bool \<times> event list" where
  "outcome r =
     (case r of
        Inl (e, s) \<Rightarrow> (Some e, state s, pins_configured s, trace s)
      | Inr s \<Rightarrow> (None, state s, pins_configured s, trace s))"

text \<open>How many times the socket has been closed.\<close>

definition closes :: "blynk \<Rightarrow> nat" where
  "closes s = length (filter (\<lambda>e. e = ConnClose) (trace s))"

text \<open>Environments for concrete runs: a quiet one (the socket has nothing to read and
  takes every send), and one in which a header and a body arrive at second \<open>c\<close>.\<close>

definition env_idle :: env where
  "env_idle =
     \<lparr>tick = 0, import_ok = True, socket_ok = True, connect_ok = True,
      rx_hdr = RecvAgain, rx_body = RecvAgain,
      tx1 = (\<lambda>_. SendOk), tx2 = (\<lambda>_. SendOk), clock = 0, pin_in = 0\<rparr>"

definition env_rx :: "bytes \<Rightarrow> bytes \<Rightarrow> int \<Rightarrow> env" where
  "env_rx hdr body c = env_idle\<lparr>rx_hdr := RecvData hdr, rx_body := RecvData body, clock := c\<rparr>"

text \<open>The command names \<^verbatim>\<open>_handle_hw\<close> knows.\<close>

definition vocabulary :: "string list" where
  "vocabulary = [''info'', ''pm'', ''vw'', ''vr'', ''dw'', ''aw'', ''dr'', ''ar'']"

text \<open>A client in an authenticated session, as after a successful login, with a write
  handler registered for virtual pin 2.\<close>

definition demo :: blynk where
  "demo = (Blynk_init [65, 66])
            \<lparr>vr_pins := [2 \<mapsto> \<lparr>vr_read = None, vr_write = Some ''on_v2''\<rparr>],
             state := AUTHENTICATED, msg_id := 3, timeout := Some 5, has_conn := True\<rparr>"

text \<open>The frame the server sends for \<^verbatim>\<open>vw\<close> on pin 2 with value 123: header (HW, id 1,
  length 8) and body \<^verbatim>\<open>vw\02\0123\<close>; the same with the unknown command \<^verbatim>\<open>xx\<close>; and a
  hardware frame with an empty body.\<close>

definition env_vw :: env where
  "env_vw = env_rx [20, 0, 1, 0, 8] [118, 119, 0, 50, 0, 49, 50, 51] 1000"

definition env_xx :: env where
  "env_xx = env_rx [20, 0, 1, 0, 2] [120, 120] 1000"

definition env_empty :: env where
  "env_empty = env_rx [20, 0, 1, 0, 0] [] 1000"

text \<open>The answer to the login: a response with id 2 and status 200. The frame that
  configures pin 2 as an output: body \<^verbatim>\<open>pm\02\0out\<close>.\<close>

definition env_login :: env where
  "env_login = env_rx [0, 0, 2, 0, 200] [] 1000"

text \<open>A login that gets two bytes of a header and no more before the timeout.\<close>

definition env_partial :: env where
  "env_partial = env_rx [0, 0] [] 1000"

definition env_pm :: env where
  "env_pm = env_rx [20, 0, 1, 0, 8] [112, 109, 0, 50, 0, 111, 117, 116] 1000"

text \<open>The state of a result, and the result of \<open>dispatch\<close> as it can be observed.\<close>

definition seen :: "(bool \<times> blynk) result \<Rightarrow> error option \<times> bool \<times> conn_state \<times> event list" where
  "seen r =
     (case r of
        Inl (e, s) \<Rightarrow> (Some e, False, state s, trace s)
      | Inr (brk, s) \<Rightarrow> (None, brk, state s, trace s))"

definition brief :: "blynk result \<Rightarrow> error option \<times> conn_state \<times> bool \<times> nat" where
  "brief r =
     (case r of
        Inl (e, s) \<Rightarrow> (Some e, state s, pins_configured s, closes s)
      | Inr s \<Rightarrow> (None, state s, pins_configured s, closes s))"

text \<open>
  A window of the rate limiter is what happens between two resets of \<^verbatim>\<open>_tx_count\<close>. A
  call of \<^verbatim>\<open>_send\<close> is its data, its flag \<^verbatim>\<open>send_anyway\<close> and what the socket answers to
  each attempt. \<open>taken s call\<close> says that the socket took the data of the call made in
  state \<open>s\<close>: a \<open>ConnSend\<close> joined the trace. \<open>sent_flags s calls\<close> lists, for the calls
  made one after the other from \<open>s\<close>, the flags of those whose data the socket took (an
  exception ends the sequence, as it ends \<^verbatim>\<open>run\<close>).
\<close>

type_synonym call = "bytes \<times> bool \<times> (nat \<Rightarrow> send_result)"

definition taken :: "blynk \<Rightarrow> call \<Rightarrow> bool" where
  "taken s c =
     (case c of (d, a, outs) \<Rightarrow>
        (case send s d a outs of
           Inl _ \<Rightarrow> False
         | Inr s' \<Rightarrow> trace s' = trace s @ [ConnSend d]))"

fun sent_flags :: "blynk \<Rightarrow> call list \<Rightarrow> bool list" where
  "sent_flags s [] = []"
| "sent_flags s ((d, a, outs) # cs) =
     (case send s d a outs of
        Inl _ \<Rightarrow> []
      | Inr s' \<Rightarrow> (if taken s (d, a, outs) then [a] else []) @ sent_flags s' cs)"

text \<open>The socket takes the data at attempt \<open>k\<close> of the retry loop, after \<open>k\<close> attempts
  that would block.\<close>

definition takes_at :: "(nat \<Rightarrow> send_result) \<Rightarrow> nat \<Rightarrow> bool" where
  "takes_at outs k = (k \<le> MAX_TX_RETRIES \<and> outs k = SendOk \<and> (\<forall>i < k. outs i = SendErr EAGAIN))"

text \<open>Concrete calls: an ordinary send and a send-anyway send of one byte, both taken by
  the socket at the first attempt.\<close>

definition call_ordinary :: call where
  "call_ordinary = ([1], False, (\<lambda>_. SendOk))"

definition call_anyway :: call where
  "call_anyway = ([2], True, (\<lambda>_. SendOk))"

text \<open>The object as a result leaves it, whether the function returned or raised.\<close>

definition after :: "blynk result \<Rightarrow> blynk" where
  "after r = (case r of Inl (e, s) \<Rightarrow> s | Inr s \<Rightarrow> s)"

text \<open>The registry of virtual pins, the hardware pin map and the flag
  \<^verbatim>\<open>_pins_configured\<close>.\<close>

definition pin_config :: "blynk \<Rightarrow> (int \<rightharpoonup> VrPin) \<times> (int \<rightharpoonup> HwPin) \<times> bool" where
  "pin_config s = (vr_pins s, hw_pins s, pins_configured s)"

text \<open>The first loop of \<^verbatim>\<open>run\<close>, iterated until the client is AUTHENTICATED (with the
  assignments that start the session) or the environments run out. A reconnect cycle
  is \<^verbatim>\<open>_close\<close> followed by this loop.\<close>

fun auth_loop :: "blynk \<Rightarrow> env list \<Rightarrow> blynk result" where
  "auth_loop s [] = Inr s"
| "auth_loop s (ev # evs) =
     (if state s = AUTHENTICATED then Inr s
      else (case run_step s ev of
              Inl e \<Rightarrow> Inl e
            | Inr s' \<Rightarrow> auth_loop s' evs))"

text \<open>The frames of type \<open>t\<close> handed to the socket so far: a frame starts with its type
  byte.\<close>

definition is_frame :: "int \<Rightarrow> event \<Rightarrow> bool" where
  "is_frame t e = (case e of ConnSend (x # _) \<Rightarrow> uint x = t | _ \<Rightarrow> False)"

definition frames :: "int \<Rightarrow> blynk \<Rightarrow> nat" where
  "frames t s = length (filter (is_frame t) (trace s))"

text \<open>The inner loop of \<^verbatim>\<open>run\<close>: iterations until \<^verbatim>\<open>break\<close>, an exception, or the
  environments run out. \<open>ping_times s evs\<close> lists the seconds (the clock read by
  \<^verbatim>\<open>_server_alive\<close>) of the iterations in which a PING frame was handed to the socket.\<close>

fun inner_loop :: "blynk \<Rightarrow> env list \<Rightarrow> (bool \<times> blynk) result" where
  "inner_loop s [] = Inr (False, s)"
| "inner_loop s (ev # evs) =
     (case inner_iter s ev of
        Inl e \<Rightarrow> Inl e
      | Inr (brk, s') \<Rightarrow> if brk then Inr (True, s') else inner_loop s' evs)"

fun ping_times :: "blynk \<Rightarrow> env list \<Rightarrow> int list" where
  "ping_times s [] = []"
| "ping_times s (ev # evs) =
     (case inner_iter s ev of
        Inl _ \<Rightarrow> []
      | Inr (brk, s') \<Rightarrow>
          (if frames MSG_PING s' \<noteq> frames MSG_PING s then [clock ev] else [])
          @ (if brk then [] else ping_times s' evs))"

text \<open>A frame with the reserved id 0, and the frame \<^verbatim>\<open>dw\02\01\<close> that drives pin 2.\<close>

definition env_bad :: env where
  "env_bad = env_rx [20, 0, 0, 0, 0] [] 1000"

definition env_dw :: env where
  "env_dw = env_rx [20, 0, 1, 0, 6] [100, 119, 0, 50, 0, 49] 1000"

text \<open>The heartbeat state: when the last ping was issued, the id still to be
  acknowledged, the last second seen, and the PING frames handed to the socket.\<close>

definition heartbeat :: "blynk \<Rightarrow> int \<times> int \<times> int \<times> nat" where
  "heartbeat s = (hb_time s, last_hb_id s, m_time s, frames MSG_PING s)"

text \<open>\<open>gaps_ok h ts\<close>: each time of \<open>ts\<close> is at least HB_PERIOD after the one before it,
  the first one after \<open>h\<close>.\<close>

fun gaps_ok :: "int \<Rightarrow> int list \<Rightarrow> bool" where
  "gaps_ok h [] = True"
| "gaps_ok h (t # ts) = (t - h \<ge> HB_PERIOD \<and> gaps_ok t ts)"

text \<open>A quiet iteration at second \<open>c\<close>, and the response that acknowledges the ping of
  id 4.\<close>

definition env_tick :: "int \<Rightarrow> env" where
  "env_tick c = env_idle\<lparr>clock := c\<rparr>"

definition env_ack :: env where
  "env_ack = env_rx [0, 0, 4, 0, 200] [] 1001"

text \<open>What an iteration of the inner loop begun in state \<open>s\<close> handles: the header that
  \<^verbatim>\<open>_recv\<close> returns, unpacked. \<open>acks s ev i\<close>: it is a response (type RSP) with id \<open>i\<close>.
  \<open>unacked s evs i\<close>: no iteration of the inner loop run from \<open>s\<close> over \<open>evs\<close> handles a
  response with id \<open>i\<close>.\<close>

definition handled :: "blynk \<Rightarrow> env \<Rightarrow> (int \<times> int \<times> int) option" where
  "handled s ev =
     (case recv s (nat HDR_LEN) NON_BLK_SOCK (rx_hdr ev) of
        Inl _ \<Rightarrow> None
      | Inr (data, _) \<Rightarrow>
          if data = [] then None
          else (case unpack_hdr data of Inl _ \<Rightarrow> None | Inr h \<Rightarrow> Some h))"

definition acks :: "blynk \<Rightarrow> env \<Rightarrow> int \<Rightarrow> bool" where
  "acks s ev i =
     (case handled s ev of None \<Rightarrow> False | Some (t, mid, _) \<Rightarrow> t = MSG_RSP \<and> mid = i)"

fun unacked :: "blynk \<Rightarrow> env list \<Rightarrow> int \<Rightarrow> bool" where
  "unacked s [] i = True"
| "unacked s (ev # evs) i =
     (\<not> acks s ev i \<and>
      (case inner_iter s ev of
         Inl _ \<Rightarrow> True
       | Inr (brk, s') \<Rightarrow> brk \<or> unacked s' evs i))"

text \<open>The id that a frame carries, and the id of the last PING frame handed to the
  socket.\<close>

definition frame_id :: "event \<Rightarrow> int" where
  "frame_id e =
     (case e of
        ConnSend d \<Rightarrow> (case unpack_hdr (take 5 d) of Inl _ \<Rightarrow> 0 | Inr (_, i, _) \<Rightarrow> i)
      | _ \<Rightarrow> 0)"

definition last_ping_id :: "blynk \<Rightarrow> int" where
  "last_ping_id s =
     (case rev (filter (is_frame MSG_PING) (trace s)) of [] \<Rightarrow> 0 | e # _ \<Rightarrow> frame_id e)"

text \<open>The response that acknowledges the ping of id 4, read at second 1008.\<close>

definition env_late :: env where
  "env_late = env_rx [0, 0, 4, 0, 200] [] 1008"

text \<open>The object as a loop, or one iteration, leaves it, whether it returned or raised.\<close>

definition final :: "('a \<times> blynk) result \<Rightarrow> blynk" where
  "final r = (case r of Inl (e, s) \<Rightarrow> s | Inr (x, s) \<Rightarrow> s)"

text \<open>The counter of sends with the number of hardware frames (type HW, the replies of
  \<^verbatim>\<open>_handle_hw\<close>, all ordinary sends) handed to the socket; and \<open>quota\<close>, that number plus
  the ordinary sends the counter still admits.\<close>

definition wire :: "blynk \<Rightarrow> int \<times> nat" where
  "wire s = (tx_count s, frames MSG_HW s)"

definition quota :: "blynk \<Rightarrow> int" where
  "quota s = int (frames MSG_HW s) + max 0 (MAX_MSG_PER_SEC - tx_count s)"

text \<open>The frame \<^verbatim>\<open>dr\02\<close>, which asks for the value of pin 2 and is answered by a
  hardware frame, read at second \<open>c\<close>.\<close>

definition env_dr :: "int \<Rightarrow> env" where
  "env_dr c = env_rx [20, 0, 1, 0, 4] [100, 114, 0, 50] c"

section \<open>Properties\<close>

declare send_loop.simps [simp del]
declare str_nat.simps [simp del]

subsection \<open>The message id allocator\<close>

lemma new_msg_id_range:
  "0 \<le> msg_id s \<Longrightarrow> msg_id s \<le> 65535 \<Longrightarrow>
   1 \<le> fst (new_msg_id s) \<and> fst (new_msg_id s) \<le> 65535 \<and>
   msg_id (snd (new_msg_id s)) = fst (new_msg_id s)"
  by (simp add: new_msg_id_def Let_def)

lemma allocs_range:
  "0 \<le> msg_id s \<Longrightarrow> msg_id s \<le> 65535 \<Longrightarrow> i \<in> set (allocs s n) \<Longrightarrow> 1 \<le> i \<and> i \<le> 65535"
proof (induction n arbitrary: s)
  case 0
  then show ?case by simp
next
  case (Suc n)
  from new_msg_id_range [OF Suc.prems(1,2)] Suc.prems(3) Suc.IH [of "snd (new_msg_id s)"]
  show ?case by (auto simp: split_def Let_def)
qed

lemma allocs_wrap:
  "Suc k < n \<Longrightarrow> allocs s n ! k = 65535 \<Longrightarrow> allocs s n ! Suc k = 1"
proof (induction n arbitrary: s k)
  case 0
  then show ?case by simp
next
  case (Suc n)
  show ?case
  proof (cases k)
    case 0
    with Suc.prems obtain m where n: "n = Suc m" by (cases n) auto
    from Suc.prems 0 have "fst (new_msg_id s) = 65535" by (simp add: split_def Let_def)
    then have "msg_id (snd (new_msg_id s)) = 65535"
      by (simp add: new_msg_id_def Let_def split: if_splits)
    then have "fst (new_msg_id (snd (new_msg_id s))) = 1" by (simp add: new_msg_id_def Let_def)
    with 0 n show ?thesis by (simp add: split_def Let_def)
  next
    case (Suc j)
    with Suc.prems Suc.IH [of j "snd (new_msg_id s)"] show ?thesis
      by (simp add: split_def Let_def)
  qed
qed

lemma length_allocs: "length (allocs s n) = n"
  by (induction n arbitrary: s) (simp_all add: split_def Let_def)

text \<open>
  C7. From a counter in 0..65535 (\<^verbatim>\<open>run\<close> starts it at 1, and only \<^verbatim>\<open>_new_msg_id\<close>
  assigns it afterwards), every one of \<open>n\<close> consecutive allocations returns an id in
  1..65535, so never 0, and the allocation after the one that returned 65535 returns 1.
\<close>

theorem msg_id_allocator:
  assumes "0 \<le> msg_id s" and "msg_id s \<le> 65535"
  shows "length (allocs s n) = n
       \<and> (\<forall>i \<in> set (allocs s n). 1 \<le> i \<and> i \<le> 65535 \<and> i \<noteq> 0)
       \<and> (\<forall>k. Suc k < n \<and> allocs s n ! k = 65535 \<longrightarrow> allocs s n ! Suc k = 1)
       \<and> msg_id (run_init s t0) = 1"
proof -
  have "\<forall>i \<in> set (allocs s n). 1 \<le> i \<and> i \<le> 65535 \<and> i \<noteq> 0"
    using allocs_range [OF assms] by fastforce
  moreover have "\<forall>k. Suc k < n \<and> allocs s n ! k = 65535 \<longrightarrow> allocs s n ! Suc k = 1"
    using allocs_wrap by blast
  moreover have "msg_id (run_init s t0) = 1" by (simp add: run_init_def)
  ultimately show ?thesis by (simp add: length_allocs)
qed

theorem msg_id_allocator_witness:
  "0 \<le> msg_id ((Blynk_init [])\<lparr>msg_id := 65533\<rparr>)
   \<and> msg_id ((Blynk_init [])\<lparr>msg_id := 65533\<rparr>) \<le> 65535
   \<and> allocs ((Blynk_init [])\<lparr>msg_id := 65533\<rparr>) 4 = [65534, 65535, 1, 2]
   \<and> allocs ((Blynk_init [])\<lparr>msg_id := 65533\<rparr>) 4 ! Suc 1 = 1
   \<and> length (allocs ((Blynk_init [])\<lparr>msg_id := 65533\<rparr>) 4) = 4"
proof -
  let ?s = "(Blynk_init [])\<lparr>msg_id := 65533\<rparr>"
  have a: "0 \<le> msg_id ?s" and b: "msg_id ?s \<le> 65535" by (simp_all add: Blynk_init_def)
  have c: "allocs ?s 4 = [65534, 65535, 1, 2]" by code_simp
  from msg_id_allocator [OF a b, of 4 0] a b c show ?thesis by simp
qed

subsection \<open>The frame codec\<close>

lemma split_on_no_sep: "z \<notin> set x \<Longrightarrow> split_on z x = [x]"
  by (induction x) auto

lemma split_on_append: "z \<notin> set x \<Longrightarrow> split_on z (x @ z # r) = x # split_on z r"
  by (induction x) auto

lemma split_on_join:
  "xs \<noteq> [] \<Longrightarrow> \<forall>x \<in> set xs. z \<notin> set x \<Longrightarrow> split_on z (join [z] xs) = xs"
  by (induction "[z]" xs rule: join.induct) (simp_all add: split_on_no_sep split_on_append)

lemma set_join_elems: "x \<in> set xs \<Longrightarrow> set x \<subseteq> set (join sep xs)"
  by (induction sep xs rule: join.induct) auto

lemma byte_of_char: "unat (of_nat (of_char c) :: byte) = of_char c"
proof -
  have "(of_char c :: nat) < 256" by simp
  then show ?thesis by (simp add: unat_of_nat)
qed

lemma decode_enc: "\<forall>c \<in> set s. (of_char c :: nat) < 128 \<Longrightarrow> decode_ascii (enc s) = Inr s"
  by (auto simp: decode_ascii_def enc_def byte_of_char map_idI)

lemma map_err_decode_enc:
  "\<forall>s \<in> set xs. \<forall>c \<in> set s. (of_char c :: nat) < 128 \<Longrightarrow>
   map_err decode_ascii (map enc xs) = Inr xs"
  by (induction xs) (simp_all add: decode_enc)

lemma enc_no_zero: "CHR 0x00 \<notin> set s \<Longrightarrow> (0::byte) \<notin> set (enc s)"
proof
  assume a: "CHR 0x00 \<notin> set s" and "(0::byte) \<in> set (enc s)"
  then obtain c where c: "c \<in> set s" and "(of_nat (of_char c) :: byte) = 0"
    by (auto simp: enc_def)
  then have "unat (of_nat (of_char c) :: byte) = 0" by simp
  then have "(of_char c :: nat) = 0" by (simp add: byte_of_char)
  moreover have "(of_char (CHR 0x00) :: nat) = 0" by simp
  ultimately have "(of_char c :: nat) = of_char (CHR 0x00)" by simp
  then have "c = CHR 0x00" by (simp only: of_char_eq_iff)
  with a c show False by simp
qed

lemma digit_char_not_nul: "0 \<le> d \<Longrightarrow> d < 10 \<Longrightarrow> digit_char d \<noteq> CHR 0x00"
proof
  assume d: "0 \<le> d" "d < 10" and "digit_char d = CHR 0x00"
  then have "(of_char (digit_char d) :: int) = of_char (CHR 0x00)" by simp
  with d show False by (simp add: digit_char_def)
qed

lemma str_nat_no_nul: "0 \<le> n \<Longrightarrow> CHR 0x00 \<notin> set (str_nat n)"
proof (induction n rule: str_nat.induct)
  case (1 n)
  show ?case
  proof (cases "n < 10")
    case True
    then show ?thesis using 1(2) digit_char_not_nul [of n] by (subst str_nat.simps) auto
  next
    case False
    then show ?thesis using 1 digit_char_not_nul [of "n mod 10"]
      by (subst str_nat.simps) auto
  qed
qed

lemma py_str_no_nul:
  "\<forall>x. a = PStr x \<longrightarrow> CHR 0x00 \<notin> set x \<Longrightarrow> CHR 0x00 \<notin> set (py_str a)"
  by (cases a) (auto simp: str_int_def str_nat_no_nul)

lemma unpack_pack:
  "pack_hdr t i l = Inr h \<Longrightarrow> unpack_hdr h = Inr (t, i, l) \<and> length h = 5"
proof -
  assume a: "pack_hdr t i l = Inr h"
  then have r: "0 \<le> t" "t \<le> 255" "0 \<le> i" "i \<le> 65535" "0 \<le> l" "l \<le> 65535"
    and h: "h = [of_int t, of_int (i div 256), of_int (i mod 256),
                of_int (l div 256), of_int (l mod 256)]"
    by (auto simp: pack_hdr_def split: if_splits)
  have b: "\<And>x::int. 0 \<le> x \<Longrightarrow> x \<le> 255 \<Longrightarrow> uint (of_int x :: byte) = x"
    by (simp add: uint_word_of_int)
  from r have "uint (of_int t :: byte) = t" by (intro b) auto
  moreover from r have "uint (of_int (i div 256) :: byte) = i div 256" by (intro b) auto
  moreover from r have "uint (of_int (i mod 256) :: byte) = i mod 256" by (intro b) auto
  moreover from r have "uint (of_int (l div 256) :: byte) = l div 256" by (intro b) auto
  moreover from r have "uint (of_int (l mod 256) :: byte) = l mod 256" by (intro b) auto
  ultimately show ?thesis using h by simp
qed

lemma encode_ascii_Inr:
  "encode_ascii s = Inr b \<Longrightarrow> b = enc s \<and> (\<forall>c \<in> set s. (of_char c :: nat) < 128)"
  by (auto simp: encode_ascii_def enc_def split: if_splits)

lemma enc_join: "enc (join [CHR 0x00] xs) = join [0] (map enc xs)"
  by (induction "[CHR 0x00]" xs rule: join.induct) (simp_all add: enc_def)

lemma decode_format_msg:
  assumes f: "format_msg s t args = Inr (b, s')"
    and ne: "args \<noteq> []"
    and nul: "\<forall>a \<in> set args. \<forall>x. a = PStr x \<longrightarrow> CHR 0x00 \<notin> set x"
  shows "decode_frame b = Inr (t, fst (new_msg_id s), map py_str args)"
proof -
  let ?xs = "map py_str args"
  from f obtain data h where e: "encode_ascii (join [CHR 0x00] ?xs) = Inr data"
    and p: "pack_hdr t (fst (new_msg_id s)) (int (length data)) = Inr h"
    and b: "b = h @ data"
    by (auto simp: format_msg_def split_def Let_def split: sum.splits)
  from encode_ascii_Inr [OF e] have d: "data = enc (join [CHR 0x00] ?xs)"
    and asc: "\<forall>c \<in> set (join [CHR 0x00] ?xs). (of_char c :: nat) < 128" by auto
  from unpack_pack [OF p] have u: "unpack_hdr h = Inr (t, fst (new_msg_id s), int (length data))"
    and lh: "length h = 5" by auto
  have xne: "?xs \<noteq> []" using ne by simp
  have nz: "\<forall>x \<in> set (map enc ?xs). (0::byte) \<notin> set x"
    using nul by (auto intro!: enc_no_zero py_str_no_nul)
  have sp: "split_on 0 data = map enc ?xs"
    unfolding d enc_join using xne nz by (intro split_on_join) auto
  have "\<forall>x \<in> set ?xs. \<forall>c \<in> set x. (of_char c :: nat) < 128"
    using asc set_join_elems [of _ ?xs "[CHR 0x00]"] by blast
  then have "map_err decode_ascii (map enc ?xs) = Inr ?xs" by (rule map_err_decode_enc)
  with sp u lh b show ?thesis by (simp add: decode_frame_def)
qed

lemma set_join: "set (join sep xs) \<subseteq> set sep \<union> \<Union> (set ` set xs)"
  by (induction sep xs rule: join.induct) auto

lemma format_msg_succeeds:
  assumes ascii: "\<forall>a \<in> set args. \<forall>c \<in> set (py_str a). (of_char c :: nat) < 128"
    and len: "int (length (join [CHR 0x00] (map py_str args))) \<le> 65535"
    and ty: "0 \<le> t" "t \<le> 255"
    and id: "0 \<le> msg_id s" "msg_id s \<le> 65535"
  shows "\<exists>b. format_msg s t args = Inr (b, snd (new_msg_id s))"
proof -
  let ?j = "join [CHR 0x00] (map py_str args)"
  have "\<forall>c \<in> set ?j. (of_char c :: nat) < 128"
  proof
    fix c assume "c \<in> set ?j"
    with set_join [of "[CHR 0x00]" "map py_str args"]
    have "c = CHR 0x00 \<or> (\<exists>a \<in> set args. c \<in> set (py_str a))" by auto
    with ascii show "(of_char c :: nat) < 128" by auto
  qed
  then have e: "encode_ascii ?j = Inr (enc ?j)" by (simp add: encode_ascii_def enc_def)
  have l: "int (length (enc ?j)) \<le> 65535" using len by (simp add: enc_def)
  from new_msg_id_range [OF id] have "0 \<le> fst (new_msg_id s)" "fst (new_msg_id s) \<le> 65535"
    by auto
  with ty l have "\<exists>h. pack_hdr t (fst (new_msg_id s)) (int (length (enc ?j))) = Inr h"
    by (simp add: pack_hdr_def)
  with e show ?thesis by (auto simp: format_msg_def split_def Let_def)
qed

text \<open>
  C3, as the code has it. The claim fails for an empty argument list (the empty body
  splits into one empty string) and for an argument that contains a NUL (it splits in
  two). For a non-empty list of arguments whose strings contain no NUL: whenever
  \<^verbatim>\<open>_format_msg\<close> produces a frame, decoding its bytes gives back the type tag, the id
  that \<^verbatim>\<open>_format_msg\<close> allocated and the text \<^verbatim>\<open>str\<close> gives of each argument, in
  order; and it does produce a frame, so that encoding then decoding gives these back,
  when the text of the arguments is ASCII, the body is at most 65535 bytes, the type
  tag fits a byte and the id counter is in 0..65535.
\<close>

theorem codec_roundtrip:
  assumes ne: "args \<noteq> []"
    and nul: "\<forall>a \<in> set args. \<forall>x. a = PStr x \<longrightarrow> CHR 0x00 \<notin> set x"
  shows "(format_msg s t args = Inr (b, s') \<longrightarrow>
            decode_frame b = Inr (t, fst (new_msg_id s), map py_str args))
       \<and> ((\<forall>a \<in> set args. \<forall>c \<in> set (py_str a). (of_char c :: nat) < 128)
            \<and> int (length (join [CHR 0x00] (map py_str args))) \<le> 65535
            \<and> 0 \<le> t \<and> t \<le> 255 \<and> 0 \<le> msg_id s \<and> msg_id s \<le> 65535 \<longrightarrow>
            roundtrip s t args = Inr (t, fst (new_msg_id s), map py_str args))"
proof (intro conjI impI)
  assume "format_msg s t args = Inr (b, s')"
  then show "decode_frame b = Inr (t, fst (new_msg_id s), map py_str args)"
    using ne nul by (rule decode_format_msg)
next
  assume c: "(\<forall>a \<in> set args. \<forall>c \<in> set (py_str a). (of_char c :: nat) < 128)
            \<and> int (length (join [CHR 0x00] (map py_str args))) \<le> 65535
            \<and> 0 \<le> t \<and> t \<le> 255 \<and> 0 \<le> msg_id s \<and> msg_id s \<le> 65535"
  then obtain b where f: "format_msg s t args = Inr (b, snd (new_msg_id s))"
    using format_msg_succeeds [of args t s] by blast
  from decode_format_msg [OF f ne nul] f
  show "roundtrip s t args = Inr (t, fst (new_msg_id s), map py_str args)"
    by (simp add: roundtrip_def)
qed

theorem codec_roundtrip_witness:
  "roundtrip (Blynk_init []) 20 [PStr ''vw'', PInt 2, PStr ''123'']
     = Inr (20, 2, [''vw'', ''2'', ''123''])"
proof -
  let ?s = "Blynk_init []"
  let ?args = "[PStr ''vw'', PInt 2, PStr ''123'']"
  have ne: "?args \<noteq> []" by simp
  have nul: "\<forall>a \<in> set ?args. \<forall>x. a = PStr x \<longrightarrow> CHR 0x00 \<notin> set x" by simp
  have asc: "\<forall>a \<in> set ?args. \<forall>c \<in> set (py_str a). (of_char c :: nat) < 128" by code_simp
  have len: "int (length (join [CHR 0x00] (map py_str ?args))) \<le> 65535" by code_simp
  have id: "0 \<le> msg_id ?s \<and> msg_id ?s \<le> 65535" by (simp add: Blynk_init_def)
  have i: "fst (new_msg_id ?s) = 2" by code_simp
  have m: "map py_str ?args = [''vw'', ''2'', ''123'']" by code_simp
  from codec_roundtrip [OF ne nul, of ?s 20] asc len id i m show ?thesis by simp
qed

theorem codec_roundtrip_counterexample:
  "roundtrip (Blynk_init []) 20 [] = Inr (20, 2, [''''])
   \<and> roundtrip (Blynk_init []) 20 [PStr [CHR ''a'', CHR 0x00, CHR ''b'']]
       = Inr (20, 2, [''a'', ''b''])"
  by code_simp

subsection \<open>What the small operations leave unchanged\<close>

lemma unpack_hdr_nonempty: "unpack_hdr hdr = Inr x \<Longrightarrow> hdr \<noteq> []"
  by auto

lemma dispatch_hw:
  assumes h: "recv s 5 0 (rx_hdr ev) = Inr (hdr, s1)"
    and u: "unpack_hdr hdr = Inr (t, mid, len)"
    and m: "mid \<noteq> 0"
    and t: "t = 20 \<or> t = 15"
    and b: "recv s1 (nat len) 1 (rx_body ev) = Inr (body, s2)"
  shows "dispatch s ev =
           (if body \<noteq> [] then
              (case handle_hw s2 body (pin_in ev) (tx1 ev) of
                 Inl e \<Rightarrow> Inl e
               | Inr s3 \<Rightarrow> Inr (False, s3))
            else Inr (False, s2))"
  using unpack_hdr_nonempty [OF u] h u m t b by (auto simp: dispatch_def)

lemma emit_emit: "emit (emit s xs) ys = emit s (xs @ ys)"
  by (simp add: emit_def)

lemma emit_fields [simp]:
  "state (emit s es) = state s" "pins_configured (emit s es) = pins_configured s"
  "vr_pins (emit s es) = vr_pins s" "hw_pins (emit s es) = hw_pins s"
  "do_connect (emit s es) = do_connect s" "tx_count (emit s es) = tx_count s"
  "msg_id (emit s es) = msg_id s" "trace (emit s es) = trace s @ es"
  "hb_time (emit s es) = hb_time s" "last_hb_id (emit s es) = last_hb_id s"
  "m_time (emit s es) = m_time s" "wdt (emit s es) = wdt s"
  by (simp_all add: emit_def)

lemma closes_emit: "closes (emit s es) = closes s + length (filter (\<lambda>e. e = ConnClose) es)"
  by (simp add: closes_def)

lemma settimeout_fields [simp]:
  "state (settimeout s t) = state s" "pins_configured (settimeout s t) = pins_configured s"
  "vr_pins (settimeout s t) = vr_pins s" "hw_pins (settimeout s t) = hw_pins s"
  "do_connect (settimeout s t) = do_connect s" "tx_count (settimeout s t) = tx_count s"
  "msg_id (settimeout s t) = msg_id s" "closes (settimeout s t) = closes s"
  "hb_time (settimeout s t) = hb_time s" "last_hb_id (settimeout s t) = last_hb_id s"
  "m_time (settimeout s t) = m_time s" "wdt (settimeout s t) = wdt s"
  "rx_data (settimeout s t) = rx_data s"
  by (simp_all add: settimeout_def closes_def emit_def)

lemma recv_fields:
  assumes "recv s n t r = Inr (d, s')"
  shows "state s' = state s" "pins_configured s' = pins_configured s"
    "vr_pins s' = vr_pins s" "hw_pins s' = hw_pins s"
    "do_connect s' = do_connect s" "tx_count s' = tx_count s"
    "msg_id s' = msg_id s" "closes s' = closes s"
    "hb_time s' = hb_time s" "last_hb_id s' = last_hb_id s"
    "m_time s' = m_time s" "wdt s' = wdt s"
  using assms by (auto simp: recv_def Let_def closes_def settimeout_def emit_def split: recv_result.splits if_splits)

lemma handle_hw_vw:
  assumes d: "map_err decode_ascii (split_on 0 data) = Inr (''vw'' # p # vals)"
    and p: "py_int p = Inr P"
  shows "handle_hw s data rd outs =
           Inr (emit s (PrintParams (p # vals) #
                  (case (case vr_pins s P of None \<Rightarrow> None | Some vp \<Rightarrow> vr_write vp) of
                     Some w \<Rightarrow> map (\<lambda>v. Call w [v]) vals
                   | None \<Rightarrow> [Print (''Warning: Virtual write to unregistered pin ''
                                       @ str_int P)])))"
  using d p by (simp add: handle_hw_def pop_int_def emit_emit Let_def split: option.splits)

lemma handle_hw_unknown:
  assumes d: "map_err decode_ascii (split_on 0 data) = Inr (cmd # params)"
    and c: "cmd \<notin> set vocabulary"
  shows "handle_hw s data rd outs =
           (if pins_configured s
            then Inl (ValueError (''Unknown message cmd: '' @ cmd), emit s [PrintParams params])
            else Inr (emit s [PrintParams params]))"
  using d c by (simp add: handle_hw_def vocabulary_def Let_def)

lemmas demo_defs = demo_def Blynk_init_def env_vw_def env_xx_def env_empty_def env_login_def
  env_pm_def env_rx_def env_idle_def

subsection \<open>The dispatcher\<close>

text \<open>
  C9. A hardware (or bridge) frame arrives in the inner loop and its body decodes to the
  command \<^verbatim>\<open>vw\<close>, a pin numeral \<open>p\<close> that \<^verbatim>\<open>int\<close> reads as \<open>P\<close>, and the values \<open>vals\<close>.
  If a write handler \<open>w\<close> is registered for \<open>P\<close>, the only callbacks called are \<open>w\<close>, once
  per value and with that value, in order. If none is registered, one warning is printed
  and no callback is called. In both cases no exception is raised, the loop is not left
  (the flag \<^verbatim>\<open>break\<close> is false), the connection state is unchanged and the socket is not
  closed.
\<close>

theorem virtual_write_dispatch:
  assumes h: "recv s 5 0 (rx_hdr ev) = Inr (hdr, s1)"
    and u: "unpack_hdr hdr = Inr (t, mid, len)"
    and m: "mid \<noteq> 0"
    and t: "t = 20 \<or> t = 15"
    and b: "recv s1 (nat len) 1 (rx_body ev) = Inr (body, s2)"
    and d: "map_err decode_ascii (split_on 0 body) = Inr (''vw'' # p # vals)"
    and p: "py_int p = Inr P"
  shows "dispatch s ev =
           Inr (False,
                emit s2 (PrintParams (p # vals) #
                  (case (case vr_pins s P of None \<Rightarrow> None | Some vp \<Rightarrow> vr_write vp) of
                     Some w \<Rightarrow> map (\<lambda>v. Call w [v]) vals
                   | None \<Rightarrow> [Print (''Warning: Virtual write to unregistered pin ''
                                       @ str_int P)])))
         \<and> state s2 = state s \<and> closes s2 = closes s"
proof -
  have ne: "body \<noteq> []" using d by (cases body) (auto simp: decode_ascii_def)
  have v: "vr_pins s2 = vr_pins s" using recv_fields(3) [OF h] recv_fields(3) [OF b] by simp
  have "state s2 = state s" using recv_fields(1) [OF h] recv_fields(1) [OF b] by simp
  moreover have "closes s2 = closes s" using recv_fields(8) [OF h] recv_fields(8) [OF b] by simp
  ultimately show ?thesis
    using dispatch_hw [OF h u m t b] ne handle_hw_vw [OF d p, of s2 "pin_in ev" "tx1 ev"] v
    by simp
qed

theorem virtual_write_dispatch_witness:
  "seen (dispatch demo env_vw) =
     (None, False, AUTHENTICATED,
      [ConnSetTimeout 0, ConnSetTimeout 1, PrintParams [''2'', ''123''],
       Call ''on_v2'' [''123'']])"
proof -
  let ?s1 = "(settimeout demo 0)\<lparr>rx_data := []\<rparr>"
  let ?s2 = "(settimeout ?s1 1)\<lparr>rx_data := []\<rparr>"
  have h: "recv demo 5 0 (rx_hdr env_vw) = Inr ([20, 0, 1, 0, 8], ?s1)"
    by (simp add: recv_def demo_defs settimeout_def emit_def Let_def)
  have u: "unpack_hdr [20, 0, 1, 0, 8] = Inr (20, 1, 8)" by simp
  have b: "recv ?s1 (nat 8) 1 (rx_body env_vw) = Inr ([118, 119, 0, 50, 0, 49, 50, 51], ?s2)"
    by (simp add: recv_def demo_defs settimeout_def emit_def Let_def)
  have d: "map_err decode_ascii (split_on 0 [118, 119, 0, 50, 0, 49, 50, 51 :: byte])
             = Inr (''vw'' # ''2'' # [''123''])" by code_simp
  have p: "py_int ''2'' = Inr 2" by code_simp
  have t: "trace ?s2 = [ConnSetTimeout 0, ConnSetTimeout 1]"
    by (simp add: demo_defs settimeout_def emit_def)
  from virtual_write_dispatch [OF h u _ _ b d p] t show ?thesis
    by (simp add: seen_def demo_defs settimeout_def emit_def)
qed

text \<open>
  C1, as the code has it. The claim fails: the unknown command is tested only under
  \<^verbatim>\<open>elif self._pins_configured\<close>, and there it raises a ValueError instead of closing.
  A hardware (or bridge) frame arrives in the inner loop with a command name outside
  the vocabulary. If pins have been configured, \<^verbatim>\<open>_handle_hw\<close> raises
  ValueError("Unknown message cmd: ...") and, as nothing in \<^verbatim>\<open>run\<close> catches it, \<^verbatim>\<open>run\<close>
  ends with that exception. If pins have not been configured, the frame is ignored:
  its parameters are printed and the loop goes on. In both cases the state stays
  AUTHENTICATED and the socket is not closed.
\<close>

theorem unknown_command:
  assumes h: "recv s 5 0 (rx_hdr ev) = Inr (hdr, s1)"
    and u: "unpack_hdr hdr = Inr (t, mid, len)"
    and m: "mid \<noteq> 0"
    and t: "t = 20 \<or> t = 15"
    and b: "recv s1 (nat len) 1 (rx_body ev) = Inr (body, s2)"
    and ne: "body \<noteq> []"
    and d: "map_err decode_ascii (split_on 0 body) = Inr (cmd # params)"
    and c: "cmd \<notin> set vocabulary"
    and a: "state s = AUTHENTICATED"
    and dc: "do_connect s"
  shows "(if pins_configured s
          then run_step s ev =
                 Inl (ValueError (''Unknown message cmd: '' @ cmd), emit s2 [PrintParams params])
          else dispatch s ev = Inr (False, emit s2 [PrintParams params]))
         \<and> state s2 = AUTHENTICATED \<and> closes s2 = closes s"
proof -
  have pc: "pins_configured s2 = pins_configured s"
    using recv_fields(2) [OF h] recv_fields(2) [OF b] by simp
  have st: "state s2 = AUTHENTICATED" using a recv_fields(1) [OF h] recv_fields(1) [OF b] by simp
  have cl: "closes s2 = closes s" using recv_fields(8) [OF h] recv_fields(8) [OF b] by simp
  have dd: "dispatch s ev =
          (if pins_configured s
           then Inl (ValueError (''Unknown message cmd: '' @ cmd), emit s2 [PrintParams params])
           else Inr (False, emit s2 [PrintParams params]))"
    using dispatch_hw [OF h u m t b] ne handle_hw_unknown [OF d c, of s2 "pin_in ev" "tx1 ev"] pc
    by simp
  show ?thesis using dd st cl a dc by (simp add: run_step_def inner_iter_def)
qed

theorem unknown_command_witness:
  "outcome (run_step (demo\<lparr>pins_configured := True\<rparr>) env_xx) =
     (Some (ValueError ''Unknown message cmd: xx''), AUTHENTICATED, True,
      [ConnSetTimeout 0, ConnSetTimeout 1, PrintParams []])"
proof -
  let ?s = "demo\<lparr>pins_configured := True\<rparr>"
  let ?s1 = "(settimeout ?s 0)\<lparr>rx_data := []\<rparr>"
  let ?s2 = "(settimeout ?s1 1)\<lparr>rx_data := []\<rparr>"
  have h: "recv ?s 5 0 (rx_hdr env_xx) = Inr ([20, 0, 1, 0, 2], ?s1)"
    by (simp add: recv_def demo_defs settimeout_def emit_def Let_def)
  have u: "unpack_hdr [20, 0, 1, 0, 2] = Inr (20, 1, 2)" by simp
  have b: "recv ?s1 (nat 2) 1 (rx_body env_xx) = Inr ([120, 120], ?s2)"
    by (simp add: recv_def demo_defs settimeout_def emit_def Let_def)
  have d: "map_err decode_ascii (split_on 0 [120, 120 :: byte]) = Inr (''xx'' # [])"
    by code_simp
  have c: "''xx'' \<notin> set vocabulary" by (simp add: vocabulary_def)
  have a: "state ?s = AUTHENTICATED" and dc: "do_connect ?s" by (simp_all add: demo_defs)
  from unknown_command [OF h u _ _ b _ d c a dc] show ?thesis
    by (simp add: outcome_def demo_defs settimeout_def emit_def)
qed

theorem unknown_command_counterexample:
  "brief (run_steps (run_init (Blynk_init [65, 66]) 0) [env_login, env_xx])
     = (None, AUTHENTICATED, False, 0)
   \<and> brief (run_steps (run_init (Blynk_init [65, 66]) 0) [env_login, env_pm, env_xx])
     = (Some (ValueError ''Unknown message cmd: xx''), AUTHENTICATED, True, 0)"
  by code_simp

subsection \<open>Frames with an empty body\<close>



subsection \<open>The rate limiter\<close>

lemma send_loop_cases:
  "send_loop s data outs r = Inr s \<or>
   send_loop s data outs r = Inr (emit (s\<lparr>tx_count := tx_count s + 1\<rparr>) [ConnSend data]) \<or>
   (\<exists>e. send_loop s data outs r = Inl (OSError e, s))"
proof (induction s data outs r rule: send_loop.induct)
  case (1 s data outs retries)
  show ?case
  proof (cases "retries \<le> 3")
    case False
    then show ?thesis by (subst send_loop.simps) simp
  next
    case True
    show ?thesis
    proof (cases "outs retries")
      case SendOk
      with True show ?thesis by (subst (2) send_loop.simps) simp
    next
      case (SendErr e)
      show ?thesis
      proof (cases "e = 11")
        case False
        with True SendErr show ?thesis by (subst (3) send_loop.simps) simp
      next
        case e: True
        from 1 [OF True SendErr] e
        have ih: "send_loop s data outs (retries + 1) = Inr s \<or>
           send_loop s data outs (retries + 1) = Inr (emit (s\<lparr>tx_count := tx_count s + 1\<rparr>) [ConnSend data]) \<or>
           (\<exists>e. send_loop s data outs (retries + 1) = Inl (OSError e, s))" by simp
        have eq: "send_loop s data outs retries = send_loop s data outs (retries + 1)"
          using True SendErr e by (subst send_loop.simps) simp
        show ?thesis unfolding eq by (rule ih)
      qed
    qed
  qed
qed

lemma send_cases:
  "send s data a outs = Inr s \<or>
   send s data a outs = Inr (emit (s\<lparr>tx_count := tx_count s + 1\<rparr>) [ConnSend data]) \<or>
   (\<exists>e. send s data a outs = Inl (OSError e, s))"
  using send_loop_cases [of s data outs 0] by (simp add: send_def)

lemma send_loop_takes:
  "takes_at outs k \<Longrightarrow> r \<le> k \<Longrightarrow>
   send_loop s data outs r = Inr (emit (s\<lparr>tx_count := tx_count s + 1\<rparr>) [ConnSend data])"
proof (induction s data outs r rule: send_loop.induct)
  case (1 s data outs retries)
  from 1(2,3) have le: "retries \<le> 3" by (simp add: takes_at_def)
  show ?case
  proof (cases "retries = k")
    case True
    with 1(2) le show ?thesis by (subst send_loop.simps) (simp add: takes_at_def)
  next
    case False
    with 1(3) have lt: "retries < k" by simp
    with 1(2) have o: "outs retries = SendErr 11" by (simp add: takes_at_def)
    from 1(1) [OF le o] 1(2) lt
    have "send_loop s data outs (retries + 1)
            = Inr (emit (s\<lparr>tx_count := tx_count s + 1\<rparr>) [ConnSend data])" by simp
    with le o show ?thesis by (subst send_loop.simps) simp
  qed
qed

lemma counted_neq: "emit (s\<lparr>tx_count := tx_count s + 1\<rparr>) es \<noteq> s"
proof
  assume "emit (s\<lparr>tx_count := tx_count s + 1\<rparr>) es = s"
  then have "tx_count (emit (s\<lparr>tx_count := tx_count s + 1\<rparr>) es) = tx_count s" by simp
  then show False by (simp add: emit_def)
qed

lemma taken_iff:
  "taken s (d, a, outs) \<longleftrightarrow>
     send s d a outs = Inr (emit (s\<lparr>tx_count := tx_count s + 1\<rparr>) [ConnSend d])"
proof -
  from send_cases [of s d a outs] show ?thesis
  proof (elim disjE exE)
    assume a: "send s d a outs = Inr s"
    then show ?thesis using counted_neq [of s "[ConnSend d]"] by (auto simp: taken_def)
  next
    assume "send s d a outs = Inr (emit (s\<lparr>tx_count := tx_count s + 1\<rparr>) [ConnSend d])"
    then show ?thesis by (simp add: taken_def emit_def)
  next
    fix e assume "send s d a outs = Inl (OSError e, s)"
    then show ?thesis by (simp add: taken_def)
  qed
qed

lemma taken_ordinary: "taken s (d, False, outs) \<Longrightarrow> tx_count s < 20"
  by (auto simp: taken_def send_def split: if_splits)

lemma not_taken: "\<not> taken s (d, a, outs) \<Longrightarrow> send s d a outs = Inr s' \<Longrightarrow> s' = s"
  using send_cases [of s d a outs] by (auto simp: taken_iff)

lemma ordinary_bound:
  "int (length (filter Not (sent_flags s cs))) \<le> max 0 (20 - tx_count s)"
proof (induction cs arbitrary: s)
  case Nil
  then show ?case by simp
next
  case (Cons c cs)
  obtain d a outs where c: "c = (d, a, outs)" by (cases c) auto
  show ?case
  proof (cases "send s d a outs")
    case (Inl e)
    with c show ?thesis by simp
  next
    case (Inr s')
    show ?thesis
    proof (cases "taken s (d, a, outs)")
      case False
      from not_taken [OF False Inr] Cons.IH [of s] c Inr False show ?thesis by simp
    next
      case True
      then have s': "s' = emit (s\<lparr>tx_count := tx_count s + 1\<rparr>) [ConnSend d]"
        using Inr by (simp add: taken_iff)
      have ih: "int (length (filter Not (sent_flags s' cs))) \<le> max 0 (20 - (tx_count s + 1))"
        using Cons.IH [of s'] by (simp add: s' emit_def)
      show ?thesis
      proof (cases a)
        case a: True
        with ih c Inr True show ?thesis by simp
      next
        case a: False
        with True have "tx_count s < 20" using taken_ordinary by simp
        with ih c Inr True a show ?thesis by simp
      qed
    qed
  qed
qed




subsection \<open>Reconnecting\<close>

lemma pin_config_simps [simp]:
  "pin_config (emit s es) = pin_config s"
  "pin_config (close s m) = pin_config s"
  "pin_config (feed s) = pin_config s"
  "pin_config (run_task s t) = pin_config s"
  "pin_config (session_init s) = pin_config s"
  "pin_config (after_session s) = pin_config s"
  "pin_config (settimeout s t') = pin_config s"
  "pin_config (snd (new_msg_id s)) = pin_config s"
  "pin_config (s\<lparr>state := st\<rparr>) = pin_config s"
  "pin_config (s\<lparr>start_time := x\<rparr>) = pin_config s"
  "pin_config (s\<lparr>tx_count := n\<rparr>) = pin_config s"
  "pin_config (s\<lparr>has_conn := b\<rparr>) = pin_config s"
  by (simp_all add: pin_config_def emit_def close_def feed_def run_task_def session_init_def
      after_session_def settimeout_def new_msg_id_def Let_def split: option.splits)

lemma send_pin_config:
  "send s d a outs = Inr s' \<Longrightarrow> pin_config s' = pin_config s"
  "send s d a outs = Inl (e, s') \<Longrightarrow> pin_config s' = pin_config s"
  using send_cases [of s d a outs] by auto

lemma recv_pin_config:
  "recv s n t r = Inr (d, s') \<Longrightarrow> pin_config s' = pin_config s"
  "recv s n t r = Inl (e, s') \<Longrightarrow> pin_config s' = pin_config s"
  by (auto simp: recv_def Let_def pin_config_def settimeout_def emit_def
      split: recv_result.splits if_splits)

lemma format_msg_pin_config:
  "format_msg s t args = Inr (b, s') \<Longrightarrow> pin_config s' = pin_config s"
  "format_msg s t args = Inl (e, s') \<Longrightarrow> pin_config s' = pin_config s"
  by (auto simp: format_msg_def Let_def split_def split: sum.splits)

lemma login_pin_config: "pin_config (after (login s ev)) = pin_config s"
  by (auto simp: login_def after_def Let_def split_def
      split: sum.splits if_splits option.splits prod.splits
      dest!: send_pin_config recv_pin_config format_msg_pin_config)

lemma login_pin_config':
  "login s ev = Inr s' \<Longrightarrow> pin_config s' = pin_config s"
  "login s ev = Inl (e, s') \<Longrightarrow> pin_config s' = pin_config s"
  using login_pin_config [of s ev] by (simp_all add: after_def)

lemma auth_iter_pin_config: "pin_config (after (auth_iter s ev)) = pin_config s"
  by (auto simp: auth_iter_def close_or_raise_def Let_def after_def sleep_from_until_def
      split: sum.splits dest!: login_pin_config')

lemma run_step_pin_config:
  "state s \<noteq> AUTHENTICATED \<Longrightarrow> pin_config (after (run_step s ev)) = pin_config s"
  using auth_iter_pin_config [of s ev]
  by (auto simp: run_step_def after_def Let_def split: sum.splits)

lemma auth_loop_pin_config: "pin_config (after (auth_loop s evs)) = pin_config s"
proof (induction evs arbitrary: s)
  case Nil
  then show ?case by (simp add: after_def)
next
  case (Cons ev evs)
  show ?case
  proof (cases "state s = AUTHENTICATED")
    case True
    then show ?thesis by (simp add: after_def)
  next
    case False
    show ?thesis
    proof (cases "run_step s ev")
      case (Inl e)
      with False run_step_pin_config [OF False, of ev] show ?thesis by simp
    next
      case (Inr s')
      with False run_step_pin_config [OF False, of ev] Cons.IH [of s'] show ?thesis
        by (simp add: after_def)
    qed
  qed
qed

lemmas run_defs = demo_defs env_bad_def env_dw_def

text \<open>
  C2, as the code has it. The claim fails where it says that \<^verbatim>\<open>_pins_configured\<close> is
  reset on each new connection: \<^verbatim>\<open>run\<close> assigns it False once, before its loops, and
  nothing in a reconnect assigns it again. Across every disconnect-and-reconnect cycle
  within one call of \<^verbatim>\<open>run\<close> (a \<^verbatim>\<open>_close\<close>, then the first loop until the client is
  authenticated again, however many attempts that takes and also when an exception ends
  it) the registry of virtual pin handlers, the hardware pin map and the flag
  \<^verbatim>\<open>_pins_configured\<close> are all three unchanged. So after a reconnect a hardware command
  is obeyed without a new configure-pins command.
\<close>

theorem reconnect_keeps_pins:
  "vr_pins (after (auth_loop (close s m) evs)) = vr_pins s
   \<and> hw_pins (after (auth_loop (close s m) evs)) = hw_pins s
   \<and> pins_configured (after (auth_loop (close s m) evs)) = pins_configured s"
proof -
  have "pin_config (after (auth_loop (close s m) evs)) = pin_config s"
    by (simp add: auth_loop_pin_config)
  then show ?thesis by (simp add: pin_config_def)
qed

theorem reconnect_keeps_pins_witness:
  "state (after (auth_loop (close (demo\<lparr>pins_configured := True\<rparr>) (Some ''invalid msg id 0''))
            [env_idle, env_login])) = AUTHENTICATED
   \<and> pins_configured (after (auth_loop (close (demo\<lparr>pins_configured := True\<rparr>)
            (Some ''invalid msg id 0'')) [env_idle, env_login])) = True"
proof -
  have a: "state (after (auth_loop (close (demo\<lparr>pins_configured := True\<rparr>)
            (Some ''invalid msg id 0'')) [env_idle, env_login])) = AUTHENTICATED"
    by code_simp
  have b: "pins_configured (demo\<lparr>pins_configured := True\<rparr>) = True" by simp
  from reconnect_keeps_pins [of "demo\<lparr>pins_configured := True\<rparr>" "Some ''invalid msg id 0''"
      "[env_idle, env_login]"] a b
  show ?thesis by simp
qed

theorem reconnect_keeps_pins_counterexample:
  "brief (run_steps (run_init (Blynk_init [65, 66]) 0) [env_login, env_pm, env_bad, env_login])
     = (None, AUTHENTICATED, True, 1)
   \<and> last (trace (after (run_steps (run_init (Blynk_init [65, 66]) 0)
                        [env_login, env_pm, env_bad, env_login, env_dw]))) = PinWrite 2 1"
  by code_simp

subsection \<open>The login exchange\<close>

lemma frames_simps [simp]:
  "frames t (emit s es) = frames t s + length (filter (is_frame t) es)"
  "frames t (s\<lparr>state := st\<rparr>) = frames t s"
  "frames t (s\<lparr>tx_count := n\<rparr>) = frames t s"
  "frames t (snd (new_msg_id s)) = frames t s"
  by (simp_all add: frames_def emit_def new_msg_id_def Let_def)

lemma is_frame_simps [simp]:
  "\<not> is_frame t (Print x)" "\<not> is_frame t (Call f xs)" "\<not> is_frame t ConnClose"
  "\<not> is_frame t WdtFeed" "\<not> is_frame t (PrintParams ps)" "\<not> is_frame t (ConnSetTimeout n)"
  "\<not> is_frame t ConnOpen"
  by (simp_all add: is_frame_def)

lemma send_fields:
  assumes "send s d a outs = Inr s'"
  shows "state s' = state s" "msg_id s' = msg_id s" "on_connect s' = on_connect s"
  using send_cases [of s d a outs] assms by (auto simp: emit_def)

lemma recv_more_fields:
  assumes "recv s n t r = Inr (d, s')"
  shows "on_connect s' = on_connect s" "frames ty s' = frames ty s" "token s' = token s"
  using assms by (auto simp: recv_def Let_def settimeout_def emit_def frames_def is_frame_def
      split: recv_result.splits if_splits)

lemma returned: "fst (outcome r) = None \<Longrightarrow> r = Inr (after r)"
  by (cases r) (auto simp: outcome_def after_def)

lemma received: "map_sum fst fst r = Inr d \<Longrightarrow> r = Inr (d, snd (projr r))"
  by (cases r) auto

text \<open>
  C8. The claim says what the login exchange is for, and the code attempts it: after an
  answer with status 200 and an id other than 0 the state becomes AUTHENTICATED and
  the hardware-info frame is passed to \<^verbatim>\<open>_send\<close>. The code does not always get there.
  The frame is passed without send-anyway, and \<^verbatim>\<open>_tx_count\<close>, which counts the login
  frames too, is reset only after the login loop: after 19 logins that time out the
  counter is 19, the twentieth login makes it 20, and when that login succeeds the
  client is AUTHENTICATED with no hardware-info frame handed to the socket, where a
  login that succeeds at once hands over one. And \<^verbatim>\<open>_rx_data\<close> outlives \<^verbatim>\<open>_close\<close>: when
  a login timed out with two bytes of a header in the buffer, the answers of the next
  connections are read two bytes late, and answers with status 200 and id 2 are
  refused with "Blynk authentication failed".
\<close>

theorem login_hw_info_dropped:
  "tx_count (after (run_steps (run_init (Blynk_init [65, 66]) 0) (replicate 19 env_idle))) = 19
   \<and> state (after (run_steps (run_init (Blynk_init [65, 66]) 0)
                   (replicate 19 env_idle @ [env_login]))) = AUTHENTICATED
   \<and> frames MSG_HW_INFO (after (run_steps (run_init (Blynk_init [65, 66]) 0)
                   (replicate 19 env_idle @ [env_login]))) = 0
   \<and> state (after (run_steps (run_init (Blynk_init [65, 66]) 0) [env_login])) = AUTHENTICATED
   \<and> frames MSG_HW_INFO (after (run_steps (run_init (Blynk_init [65, 66]) 0) [env_login])) = 1
   \<and> brief (run_steps (run_init (Blynk_init [65, 66]) 0) [env_partial, env_login, env_login])
       = (None, DISCONNECTED, False, 3)
   \<and> last (trace (after (run_steps (run_init (Blynk_init [65, 66]) 0)
                          [env_partial, env_login, env_login])))
       = Print ''Error: Blynk authentication failed, connection closed''
   \<and> frames MSG_HW_INFO (after (run_steps (run_init (Blynk_init [65, 66]) 0)
                   [env_partial, env_login, env_login])) = 0"
  by code_simp

subsection \<open>The heartbeat monitor\<close>

lemma heartbeat_simps [simp]:
  "filter (is_frame MSG_PING) es = [] \<Longrightarrow> heartbeat (emit s es) = heartbeat s"
  "heartbeat (s\<lparr>hw_pins := hp\<rparr>) = heartbeat s"
  "heartbeat (s\<lparr>pins_configured := b\<rparr>) = heartbeat s"
  "heartbeat (s\<lparr>start_time := x\<rparr>) = heartbeat s"
  "heartbeat (snd (new_msg_id s)) = heartbeat s"
  "heartbeat (close s m) = heartbeat s"
  "heartbeat (run_task s t) = heartbeat s"
  by (simp_all add: heartbeat_def emit_def frames_def new_msg_id_def Let_def close_def
      run_task_def is_frame_def split: option.splits)

lemma is_frame_hal [simp]:
  "\<not> is_frame t (PinInit a b c)" "\<not> is_frame t (AdcInit a)" "\<not> is_frame t (PwmInit a)"
  "\<not> is_frame t (PinWrite a v)" "\<not> is_frame t (PwmDuty a v)"
  by (simp_all add: is_frame_def)

lemma filter_calls [simp]: "filter (is_frame t) (map (\<lambda>v. Call w [v]) vals) = []"
  by (induction vals) simp_all

lemma pm_loop_heartbeat: "pm_loop s ps = Inr s' \<Longrightarrow> heartbeat s' = heartbeat s"
proof (induction s ps rule: pm_loop.induct)
  case (1 s)
  then show ?case by simp
next
  case (2 s pin mode rest)
  then show ?case by (auto split: sum.splits if_splits)
qed

lemma set_function_heartbeat:
  "set_function s k p f = Inr (b, s') \<Longrightarrow> heartbeat s' = heartbeat s"
  by (auto simp: set_function_def Let_def config_def split: if_splits sum.splits option.splits)

lemma hw_ops_heartbeat:
  "digital_write s k p v = Inr s' \<Longrightarrow> heartbeat s' = heartbeat s"
  "analog_write s k p v = Inr s' \<Longrightarrow> heartbeat s' = heartbeat s"
  "digital_read s k p rd = Inr (x, s') \<Longrightarrow> heartbeat s' = heartbeat s"
  "analog_read s k p rd = Inr (x, s') \<Longrightarrow> heartbeat s' = heartbeat s"
  by (auto simp: digital_write_def analog_write_def digital_read_def analog_read_def
      split: sum.splits if_splits dest!: set_function_heartbeat)

lemma format_msg_head:
  "format_msg s t args = Inr (m, s') \<Longrightarrow>
     heartbeat s' = heartbeat s \<and> is_frame t' (ConnSend m) = (t = t')"
proof -
  assume a: "format_msg s t args = Inr (m, s')"
  then obtain data h where h: "pack_hdr t (fst (new_msg_id s)) (int (length data)) = Inr h"
    and m: "m = h @ data" and s': "s' = snd (new_msg_id s)"
    by (auto simp: format_msg_def split_def Let_def split: sum.splits)
  from h have r: "0 \<le> t" "t \<le> 255" and hd: "\<exists>tl. h = of_int t # tl"
    by (auto simp: pack_hdr_def split: if_splits)
  from r have "uint (of_int t :: byte) = t" by (simp add: uint_word_of_int)
  with hd m s' show ?thesis by (auto simp: is_frame_def)
qed

lemma send_heartbeat:
  "send s d a outs = Inr s' \<Longrightarrow> \<not> is_frame MSG_PING (ConnSend d) \<Longrightarrow> heartbeat s' = heartbeat s"
  using send_cases [of s d a outs] by (auto simp: heartbeat_def emit_def frames_def)

lemma send_hw_heartbeat:
  "format_msg s MSG_HW args = Inr (m, s1) \<Longrightarrow> send s1 m a outs = Inr s' \<Longrightarrow>
   heartbeat s' = heartbeat s"
  using format_msg_head [of s MSG_HW args m s1 MSG_PING] send_heartbeat [of s1 m a outs s']
  by simp

lemma handle_hw_heartbeat:
  assumes a: "handle_hw s data rd outs = Inr s'"
  shows "heartbeat s' = heartbeat s"
proof -
  from a obtain cmd params where d: "map_err decode_ascii (split_on 0 data) = Inr (cmd # params)"
    by (auto simp: handle_hw_def split: sum.splits list.splits)
  let ?s = "emit s [PrintParams params]"
  have h0: "heartbeat ?s = heartbeat s" by simp
  consider (info) "cmd = ''info''" | (pm) "cmd = ''pm''" | (vw) "cmd = ''vw''"
    | (vr) "cmd = ''vr''" | (dw) "cmd = ''dw''" | (aw) "cmd = ''aw''" | (dr) "cmd = ''dr''"
    | (ar) "cmd = ''ar''"
    | (other) "cmd \<notin> set vocabulary" by (auto simp: vocabulary_def)
  then have "heartbeat s' = heartbeat ?s"
  proof cases
    case info
    with a d show ?thesis by (simp add: handle_hw_def)
  next
    case pm
    with a d show ?thesis
      by (auto simp: handle_hw_def Let_def split: sum.splits dest!: pm_loop_heartbeat)
  next
    case vw
    with a d show ?thesis
      by (auto simp: handle_hw_def Let_def pop_int_def split: sum.splits list.splits option.splits)
  next
    case vr
    with a d show ?thesis
      by (auto simp: handle_hw_def Let_def pop_int_def split: sum.splits list.splits option.splits)
  next
    case dw
    with a d show ?thesis
      by (auto simp: handle_hw_def Let_def pop_int_def get_hw_pin_def
          split: sum.splits list.splits option.splits if_splits dest!: hw_ops_heartbeat)
  next
    case aw
    with a d show ?thesis
      by (auto simp: handle_hw_def Let_def pop_int_def get_hw_pin_def
          split: sum.splits list.splits option.splits if_splits dest!: hw_ops_heartbeat)
  next
    case dr
    with a d show ?thesis
      apply (auto simp: handle_hw_def Let_def pop_int_def get_hw_pin_def
          split: sum.splits list.splits option.splits if_splits dest!: hw_ops_heartbeat)
      apply (frule (1) send_hw_heartbeat)
      apply simp
      done
  next
    case ar
    with a d show ?thesis
      apply (auto simp: handle_hw_def Let_def pop_int_def get_hw_pin_def
          split: sum.splits list.splits option.splits if_splits dest!: hw_ops_heartbeat)
      apply (frule (1) send_hw_heartbeat)
      apply simp
      done
  next
    case other
    from a handle_hw_unknown [OF d other, of s rd outs] show ?thesis
      by (auto split: if_splits)
  qed
  with h0 show ?thesis by simp
qed

lemma recv_heartbeat: "recv s n t r = Inr (d, s') \<Longrightarrow> heartbeat s' = heartbeat s"
  using recv_fields(9,10,11) [of s n t r d s'] recv_more_fields(2) [of s n t r d s']
  by (simp add: heartbeat_def)

text \<open>Frame handling leaves the heartbeat state alone, except that a response with the
  outstanding id clears it.\<close>

lemma dispatch_heartbeat:
  assumes a: "dispatch s ev = Inr (brk, s')"
  shows "hb_time s' = hb_time s \<and> m_time s' = m_time s
       \<and> frames MSG_PING s' = frames MSG_PING s
       \<and> (last_hb_id s' = last_hb_id s
          \<or> (last_hb_id s' = 0 \<and> acks s ev (last_hb_id s)))"
proof -
  have k: "\<And>x y. heartbeat x = heartbeat y \<Longrightarrow>
             hb_time x = hb_time y \<and> m_time x = m_time y
           \<and> frames MSG_PING x = frames MSG_PING y
           \<and> last_hb_id x = last_hb_id y"
    by (simp add: heartbeat_def)
  from a obtain data s1 where r: "recv s 5 0 (rx_hdr ev) = Inr (data, s1)"
    by (auto simp: dispatch_def split: sum.splits)
  have h1: "heartbeat s1 = heartbeat s" using r by (rule recv_heartbeat)
  show ?thesis
  proof (cases "data = []")
    case True
    with a r have "s' = s1\<lparr>start_time := sleep_from_until (start_time s1) IDLE_TIME_MS\<rparr>"
      by (simp add: dispatch_def)
    then have "heartbeat s' = heartbeat s" using h1 by simp
    then show ?thesis using k by blast
  next
    case ne: False
    with a r obtain t mid len where u: "unpack_hdr data = Inr (t, mid, len)"
      by (auto simp: dispatch_def split: sum.splits)
    from a r ne u have d: "Inr (brk, s') =
       (if mid = 0 then Inr (True, close s1 (Some (''invalid msg id '' @ str_int mid)))
        else if t = MSG_RSP then
          Inr (False, if mid = last_hb_id s1 then s1\<lparr>last_hb_id := 0\<rparr> else s1)
        else if t = MSG_PING then
          (case pack_hdr MSG_RSP mid STA_SUCCESS of
             Inl e \<Rightarrow> Inl (e, s1)
           | Inr h \<Rightarrow>
               (case send s1 h True (tx1 ev) of
                  Inl e \<Rightarrow> Inl e
                | Inr s2 \<Rightarrow> Inr (False, s2)))
        else if t = MSG_HW \<or> t = MSG_BRIDGE then
          (case recv s1 (nat len) MIN_SOCK_TO (rx_body ev) of
             Inl e \<Rightarrow> Inl e
           | Inr (body, s2) \<Rightarrow>
               if body \<noteq> [] then
                 (case handle_hw s2 body (pin_in ev) (tx1 ev) of
                    Inl e \<Rightarrow> Inl e
                  | Inr s3 \<Rightarrow> Inr (False, s3))
               else Inr (False, s2))
        else Inr (True, close s1 (Some (''unknown message type '' @ str_int t))))"
      by (simp add: dispatch_def)
    consider (zero) "mid = 0" | (rsp) "mid \<noteq> 0" "t = MSG_RSP" | (ping) "mid \<noteq> 0" "t = MSG_PING"
      | (hw) "mid \<noteq> 0" "t = MSG_HW \<or> t = MSG_BRIDGE"
      | (unknown) "mid \<noteq> 0" "t \<noteq> MSG_RSP" "t \<noteq> MSG_PING" "t \<noteq> MSG_HW" "t \<noteq> MSG_BRIDGE"
      by auto
    then show ?thesis
    proof cases
      case zero
      with d have "s' = close s1 (Some (''invalid msg id '' @ str_int mid))" by simp
      then have "heartbeat s' = heartbeat s" using h1 by simp
      then show ?thesis using k by blast
    next
      case rsp
      with d have "s' = (if mid = last_hb_id s1 then s1\<lparr>last_hb_id := 0\<rparr> else s1)" by simp
      moreover from r ne u rsp have "acks s ev (last_hb_id s1) = (mid = last_hb_id s1)"
        by (auto simp: acks_def handled_def)
      ultimately show ?thesis using h1 by (auto simp: heartbeat_def frames_def)
    next
      case ping
      with d obtain h where p: "pack_hdr MSG_RSP mid STA_SUCCESS = Inr h"
        and sd: "send s1 h True (tx1 ev) = Inr s'"
        by (auto split: sum.splits)
      from p have "\<not> is_frame MSG_PING (ConnSend h)"
        by (auto simp: pack_hdr_def is_frame_def split: if_splits)
      with sd have "heartbeat s' = heartbeat s1" by (rule send_heartbeat)
      with h1 have "heartbeat s' = heartbeat s" by simp
      then show ?thesis using k by blast
    next
      case hw
      with d obtain body s2 where rb: "recv s1 (nat len) MIN_SOCK_TO (rx_body ev) = Inr (body, s2)"
        by (auto split: sum.splits)
      have h2: "heartbeat s2 = heartbeat s" using recv_heartbeat [OF rb] h1 by simp
      show ?thesis
      proof (cases "body = []")
        case True
        with d hw rb have "s' = s2" by auto
        with h2 k show ?thesis by blast
      next
        case False
        with d hw rb have "handle_hw s2 body (pin_in ev) (tx1 ev) = Inr s'"
          by (auto split: sum.splits)
        from handle_hw_heartbeat [OF this] h2 have "heartbeat s' = heartbeat s" by simp
        then show ?thesis using k by blast
      qed
    next
      case unknown
      with d have "s' = close s1 (Some (''unknown message type '' @ str_int t))" by simp
      then have "heartbeat s' = heartbeat s" using h1 by simp
      then show ?thesis using k by blast
    qed
  qed
qed


lemma heartbeat_fields:
  "heartbeat x = heartbeat y \<Longrightarrow>
     hb_time x = hb_time y \<and> last_hb_id x = last_hb_id y \<and> m_time x = m_time y
   \<and> frames MSG_PING x = frames MSG_PING y"
  by (simp add: heartbeat_def)

lemma server_alive_step:
  assumes a: "server_alive s c outs = Inr (alive, s')"
  shows "((hb_time s' = hb_time s \<and> frames MSG_PING s' = frames MSG_PING s)
          \<or> (c - hb_time s \<ge> HB_PERIOD \<and> hb_time s' = c))
       \<and> ((last_hb_id s \<noteq> 0 \<longrightarrow> m_time s - hb_time s < MAX_SOCK_TO) \<and> alive \<longrightarrow>
            (last_hb_id s' \<noteq> 0 \<longrightarrow> m_time s' - hb_time s' < MAX_SOCK_TO))"
proof (cases "m_time s = c")
  case True
  with a show ?thesis by (simp add: server_alive_def)
next
  case new: False
  let ?s1 = "feed (s\<lparr>m_time := c, tx_count := 0\<rparr>)"
  have f1: "hb_time ?s1 = hb_time s" "last_hb_id ?s1 = last_hb_id s" "m_time ?s1 = c"
    "frames MSG_PING ?s1 = frames MSG_PING s" "state ?s1 = state s"
    by (simp_all add: feed_def emit_def frames_def is_frame_def)
  show ?thesis
  proof (cases "last_hb_id s \<noteq> 0 \<and> c - hb_time s \<ge> MAX_SOCK_TO")
    case True
    with a new f1 have "s' = ?s1" "\<not> alive" by (auto simp: server_alive_def Let_def)
    with f1 show ?thesis by simp
  next
    case live: False
    show ?thesis
    proof (cases "c - hb_time s \<ge> HB_PERIOD \<and> state s = AUTHENTICATED")
      case False
      with a new live f1 have "s' = ?s1" by (auto simp: server_alive_def Let_def)
      with f1 live show ?thesis by auto
    next
      case True
      let ?s3 = "(snd (new_msg_id (?s1\<lparr>hb_time := c\<rparr>)))
                   \<lparr>last_hb_id := fst (new_msg_id (?s1\<lparr>hb_time := c\<rparr>))\<rparr>"
      have f3: "hb_time ?s3 = c" "m_time ?s3 = c"
        by (simp_all add: new_msg_id_def Let_def feed_def emit_def)
      from a new live True f1 obtain h where "send ?s3 h True outs = Inr s'"
        by (auto simp: server_alive_def Let_def split_def split: sum.splits)
      with send_cases [of ?s3 h True outs]
      have "s' = ?s3 \<or> s' = emit (?s3\<lparr>tx_count := tx_count ?s3 + 1\<rparr>) [ConnSend h]" by auto
      then have "hb_time s' = c" "m_time s' = c" using f3 by (auto simp: emit_def)
      with True show ?thesis by simp
    qed
  qed
qed

lemma server_alive_offline:
  assumes "m_time s \<noteq> c" and "last_hb_id s \<noteq> 0" and "c - hb_time s \<ge> MAX_SOCK_TO"
  shows "server_alive s c outs = Inr (False, feed (s\<lparr>m_time := c, tx_count := 0\<rparr>))"
  using assms by (simp add: server_alive_def Let_def feed_def emit_def)

lemma close_fields [simp]:
  "hb_time (close s m) = hb_time s" "frames t (close s m) = frames t s"
  "last_hb_id (close s m) = last_hb_id s" "m_time (close s m) = m_time s"
  "state (close s m) = DISCONNECTED"
  by (simp_all add: close_def emit_def Let_def frames_def is_frame_def split: option.splits)

lemma run_task_fields [simp]:
  "hb_time (run_task s t) = hb_time s" "frames ty (run_task s t) = frames ty s"
  "last_hb_id (run_task s t) = last_hb_id s" "m_time (run_task s t) = m_time s"
  by (simp_all add: run_task_def emit_def frames_def is_frame_def split: option.splits)

lemma inner_iter_step:
  assumes a: "inner_iter s ev = Inr (brk, s')"
  shows "((hb_time s' = hb_time s \<and> frames MSG_PING s' = frames MSG_PING s)
          \<or> (clock ev - hb_time s \<ge> HB_PERIOD \<and> hb_time s' = clock ev))
       \<and> ((last_hb_id s \<noteq> 0 \<longrightarrow> m_time s - hb_time s < MAX_SOCK_TO) \<and> \<not> brk \<longrightarrow>
            (last_hb_id s' \<noteq> 0 \<longrightarrow> m_time s' - hb_time s' < MAX_SOCK_TO))"
proof -
  from a obtain b1 s1 where d: "dispatch s ev = Inr (b1, s1)"
    by (auto simp: inner_iter_def split: sum.splits)
  note h1 = dispatch_heartbeat [OF d]
  show ?thesis
  proof (cases b1)
    case True
    with a d have "s' = s1" "brk" by (simp_all add: inner_iter_def)
    with h1 show ?thesis by simp
  next
    case False
    with a d obtain alive s2 where sa: "server_alive s1 (clock ev) (tx2 ev) = Inr (alive, s2)"
      by (auto simp: inner_iter_def split: sum.splits)
    note h2 = server_alive_step [OF sa]
    show ?thesis
    proof (cases alive)
      case True
      with a d False sa have "s' = run_task s2 (tick ev)" by (simp add: inner_iter_def)
      with h1 h2 True show ?thesis by auto
    next
      case dead: False
      with a d False sa have "s' = close s2 (Some ''Blynk server is offline'')" "brk"
        by (simp_all add: inner_iter_def)
      with h1 h2 show ?thesis by auto
    qed
  qed
qed

lemma gaps_ok_lower: "gaps_ok h' ts \<Longrightarrow> h \<le> h' \<Longrightarrow> gaps_ok h ts"
  by (cases ts) auto

lemma gaps_ok_ping_times: "gaps_ok (hb_time s) (ping_times s evs)"
proof (induction evs arbitrary: s)
  case Nil
  then show ?case by simp
next
  case (Cons ev evs)
  show ?case
  proof (cases "inner_iter s ev")
    case (Inl e)
    then show ?thesis by simp
  next
    case (Inr r)
    obtain brk s' where r: "r = (brk, s')" by (cases r) auto
    note st = inner_iter_step [OF Inr [unfolded r]]
    have rest: "gaps_ok (hb_time s') (if brk then [] else ping_times s' evs)"
      using Cons.IH [of s'] by simp
    show ?thesis
    proof (cases "frames MSG_PING s' \<noteq> frames MSG_PING s")
      case True
      with st have "clock ev - hb_time s \<ge> HB_PERIOD" "hb_time s' = clock ev" by auto
      with Inr r True rest show ?thesis by simp
    next
      case False
      from st have "hb_time s \<le> hb_time s'" by auto
      with rest have "gaps_ok (hb_time s) (if brk then [] else ping_times s' evs)"
        by (rule gaps_ok_lower)
      with Inr r False show ?thesis by simp
    qed
  qed
qed

lemma gaps_ok_all: "gaps_ok h ts \<Longrightarrow> t \<in> set ts \<Longrightarrow> t - h \<ge> HB_PERIOD"
proof (induction ts arbitrary: h)
  case Nil
  then show ?case by simp
next
  case (Cons a ts)
  show ?case
  proof (cases "t = a")
    case True
    with Cons.prems show ?thesis by simp
  next
    case False
    with Cons.prems have "t \<in> set ts" "gaps_ok a ts" "a - h \<ge> HB_PERIOD" by auto
    with Cons.IH [of a] show ?thesis by simp
  qed
qed

lemma gaps_ok_nth:
  "gaps_ok h ts \<Longrightarrow> i < j \<Longrightarrow> j < length ts \<Longrightarrow> ts ! j - ts ! i \<ge> HB_PERIOD"
proof (induction ts arbitrary: h i j)
  case Nil
  then show ?case by simp
next
  case (Cons a ts)
  from Cons.prems obtain j' where j: "j = Suc j'" by (cases j) auto
  show ?case
  proof (cases i)
    case 0
    from Cons.prems j have "ts ! j' \<in> set ts" "gaps_ok a ts" by auto
    from gaps_ok_all [OF this(2,1)] 0 j show ?thesis by simp
  next
    case (Suc i')
    with Cons.prems j Cons.IH [of a i' j'] show ?thesis by simp
  qed
qed

lemma ping_frame:
  assumes "pack_hdr MSG_PING i 0 = Inr h"
  shows "is_frame MSG_PING (ConnSend h)" "frame_id (ConnSend h) = i"
proof -
  from assms show "is_frame MSG_PING (ConnSend h)"
    by (auto simp: pack_hdr_def is_frame_def split: if_splits)
  from unpack_pack [OF assms] show "frame_id (ConnSend h) = i"
    by (simp add: frame_id_def)
qed

lemma last_ping_id_simps:
  "filter (is_frame MSG_PING) es = [] \<Longrightarrow> last_ping_id (emit s es) = last_ping_id s"
  "is_frame MSG_PING e \<Longrightarrow> last_ping_id (emit s [e]) = frame_id e"
  "last_ping_id (run_task s t) = last_ping_id s"
  by (simp_all add: last_ping_id_def emit_def run_task_def is_frame_def split: option.splits)

lemma server_alive_pinged:
  assumes a: "server_alive s c outs = Inr (alive, s')"
    and f: "frames MSG_PING s' \<noteq> frames MSG_PING s"
  shows "alive \<and> hb_time s' = c \<and> m_time s' = c \<and> last_hb_id s' = last_ping_id s'"
proof (cases "m_time s = c")
  case True
  with a f show ?thesis by (simp add: server_alive_def)
next
  case new: False
  let ?s1 = "feed (s\<lparr>m_time := c, tx_count := 0\<rparr>)"
  have f1: "hb_time ?s1 = hb_time s" "last_hb_id ?s1 = last_hb_id s" "m_time ?s1 = c"
    "frames MSG_PING ?s1 = frames MSG_PING s" "state ?s1 = state s"
    by (simp_all add: feed_def emit_def frames_def is_frame_def)
  show ?thesis
  proof (cases "last_hb_id s \<noteq> 0 \<and> c - hb_time s \<ge> MAX_SOCK_TO")
    case True
    with a new f1 have "s' = ?s1" by (auto simp: server_alive_def Let_def)
    with f f1 show ?thesis by simp
  next
    case live: False
    show ?thesis
    proof (cases "c - hb_time s \<ge> HB_PERIOD \<and> state s = AUTHENTICATED")
      case False
      with a new live f1 have "s' = ?s1" by (auto simp: server_alive_def Let_def)
      with f f1 show ?thesis by simp
    next
      case True
      let ?i = "fst (new_msg_id (?s1\<lparr>hb_time := c\<rparr>))"
      let ?s3 = "(snd (new_msg_id (?s1\<lparr>hb_time := c\<rparr>)))\<lparr>last_hb_id := ?i\<rparr>"
      have f3: "hb_time ?s3 = c" "m_time ?s3 = c" "last_hb_id ?s3 = ?i"
        "frames MSG_PING ?s3 = frames MSG_PING s"
        by (simp_all add: new_msg_id_def Let_def feed_def emit_def frames_def is_frame_def)
      from a new live True f1 obtain h where p: "pack_hdr MSG_PING ?i 0 = Inr h"
        and sd: "send ?s3 h True outs = Inr s'" and al: "alive"
        by (auto simp: server_alive_def Let_def split_def split: sum.splits)
      from send_cases [of ?s3 h True outs] sd
      have "s' = ?s3 \<or> s' = emit (?s3\<lparr>tx_count := tx_count ?s3 + 1\<rparr>) [ConnSend h]" by auto
      with f f3 have s': "s' = emit (?s3\<lparr>tx_count := tx_count ?s3 + 1\<rparr>) [ConnSend h]" by auto
      have "last_ping_id s' = ?i"
        unfolding s' using ping_frame [OF p] by (simp add: last_ping_id_simps)
      moreover have "hb_time s' = c" "m_time s' = c" "last_hb_id s' = ?i"
        unfolding s' using f3 by (simp_all add: emit_def)
      ultimately show ?thesis using al by simp
    qed
  qed
qed

lemma server_alive_keeps:
  assumes a: "server_alive s c outs = Inr (True, s')"
    and o: "last_hb_id s \<noteq> 0" and i: "m_time s - hb_time s < MAX_SOCK_TO"
  shows "last_hb_id s' = last_hb_id s \<and> hb_time s' = hb_time s
         \<and> m_time s' - hb_time s' < MAX_SOCK_TO"
proof (cases "m_time s = c")
  case True
  with a i show ?thesis by (simp add: server_alive_def)
next
  case new: False
  let ?s1 = "feed (s\<lparr>m_time := c, tx_count := 0\<rparr>)"
  have f1: "hb_time ?s1 = hb_time s" "last_hb_id ?s1 = last_hb_id s" "m_time ?s1 = c"
    by (simp_all add: feed_def emit_def)
  from a new o f1 have lt: "c - hb_time s < MAX_SOCK_TO"
    by (auto simp: server_alive_def Let_def split: if_splits)
  with a new o f1 have "s' = ?s1" by (auto simp: server_alive_def Let_def)
  with f1 lt show ?thesis by simp
qed

lemma inner_iter_pinged:
  assumes a: "inner_iter s ev = Inr (brk, s')"
    and f: "frames MSG_PING s' \<noteq> frames MSG_PING s"
  shows "hb_time s' = clock ev \<and> m_time s' = clock ev \<and> last_hb_id s' = last_ping_id s'"
proof -
  from a obtain b1 s1 where d: "dispatch s ev = Inr (b1, s1)"
    by (auto simp: inner_iter_def split: sum.splits)
  note h1 = dispatch_heartbeat [OF d]
  show ?thesis
  proof (cases b1)
    case True
    with a d have "s' = s1" by (simp add: inner_iter_def)
    with h1 f show ?thesis by simp
  next
    case False
    with a d obtain alive s2 where sa: "server_alive s1 (clock ev) (tx2 ev) = Inr (alive, s2)"
      by (auto simp: inner_iter_def split: sum.splits)
    show ?thesis
    proof (cases alive)
      case True
      with a d False sa have s': "s' = run_task s2 (tick ev)" by (simp add: inner_iter_def)
      with f h1 have "frames MSG_PING s2 \<noteq> frames MSG_PING s1" by simp
      from server_alive_pinged [OF sa this] show ?thesis
        unfolding s' by (simp add: last_ping_id_simps)
    next
      case dead: False
      with a d False sa have s': "s' = close s2 (Some ''Blynk server is offline'')"
        by (simp add: inner_iter_def)
      with f h1 have "frames MSG_PING s2 \<noteq> frames MSG_PING s1" by simp
      from server_alive_pinged [OF sa this] dead show ?thesis by simp
    qed
  qed
qed

lemma inner_iter_keeps:
  assumes a: "inner_iter s ev = Inr (False, s')"
    and n: "\<not> acks s ev (last_hb_id s)"
    and o: "last_hb_id s \<noteq> 0" and i: "m_time s - hb_time s < MAX_SOCK_TO"
  shows "last_hb_id s' = last_hb_id s \<and> hb_time s' = hb_time s
         \<and> m_time s' - hb_time s' < MAX_SOCK_TO"
proof -
  from a obtain s1 where d: "dispatch s ev = Inr (False, s1)"
    by (auto simp: inner_iter_def split: sum.splits if_splits)
  from dispatch_heartbeat [OF d] n
  have h1: "last_hb_id s1 = last_hb_id s" "hb_time s1 = hb_time s" "m_time s1 = m_time s"
    by auto
  from a d obtain s2 where sa: "server_alive s1 (clock ev) (tx2 ev) = Inr (True, s2)"
    and s': "s' = run_task s2 (tick ev)"
    by (auto simp: inner_iter_def split: sum.splits if_splits)
  from server_alive_keeps [OF sa] h1 o i show ?thesis unfolding s' by simp
qed

lemma inner_loop_keeps:
  "inner_loop s evs = Inr (False, s') \<Longrightarrow> unacked s evs (last_hb_id s) \<Longrightarrow>
   last_hb_id s \<noteq> 0 \<Longrightarrow> m_time s - hb_time s < MAX_SOCK_TO \<Longrightarrow>
   last_hb_id s' = last_hb_id s \<and> hb_time s' = hb_time s
   \<and> m_time s' - hb_time s' < MAX_SOCK_TO"
proof (induction evs arbitrary: s)
  case Nil
  then show ?case by simp
next
  case (Cons ev evs)
  from Cons.prems(1) obtain s1 where i: "inner_iter s ev = Inr (False, s1)"
    and l: "inner_loop s1 evs = Inr (False, s')"
    by (auto split: sum.splits if_splits)
  from Cons.prems(2) i have n: "\<not> acks s ev (last_hb_id s)"
    and u: "unacked s1 evs (last_hb_id s)" by simp_all
  from inner_iter_keeps [OF i n Cons.prems(3,4)]
  have k: "last_hb_id s1 = last_hb_id s" "hb_time s1 = hb_time s"
    "m_time s1 - hb_time s1 < MAX_SOCK_TO" by simp_all
  from Cons.IH [OF l] u k Cons.prems(3) show ?case by simp
qed

text \<open>
  C5, as the code has it. Time is the second that \<^verbatim>\<open>_server_alive\<close> reads, once per
  iteration of the inner loop, after the iteration has handled its frame. In any run of
  the inner loop, whatever arrives and whatever the clock does, any two PING frames
  handed to the socket are at least 10 seconds apart. A ping is outstanding from the
  iteration that hands its frame to the socket until an iteration handles a response
  with its id. The connection is closed for it only by the heartbeat check: when an
  iteration whose frame handling neither leaves the loop nor raises reads a second 5 or
  more past the second of the ping, and no iteration since the ping, this one included,
  has handled a response with the ping's id, that iteration closes the socket, prints
  "Error: Blynk server is offline, connection closed", leaves the loop, and the state is
  DISCONNECTED. The claim fails where it says "whenever": a ping whose response is
  handled before the next check is never closed, however late the response comes, be
  it in the iteration that reads the fifth second after the ping or, when the loop was
  held up, in one that reads the eighth.
\<close>

theorem heartbeat_monitor:
  "(\<forall>i j. i < j \<and> j < length (ping_times s0 evs) \<longrightarrow>
       ping_times s0 evs ! j - ping_times s0 evs ! i \<ge> HB_PERIOD)
   \<and> (inner_iter sk evk = Inr (False, sp) \<and> frames MSG_PING sp \<noteq> frames MSG_PING sk
        \<and> last_ping_id sp \<noteq> 0
        \<and> inner_loop sp evs2 = Inr (False, s) \<and> unacked sp evs2 (last_ping_id sp)
        \<and> dispatch s ev = Inr (False, s1) \<and> \<not> acks s ev (last_ping_id sp)
        \<and> clock ev - clock evk \<ge> MAX_SOCK_TO \<longrightarrow>
        inner_iter s ev =
          Inr (True, close (feed (s1\<lparr>m_time := clock ev, tx_count := 0\<rparr>))
                       (Some ''Blynk server is offline''))
        \<and> state (close (feed (s1\<lparr>m_time := clock ev, tx_count := 0\<rparr>))
                   (Some ''Blynk server is offline'')) = DISCONNECTED
        \<and> trace (close (feed (s1\<lparr>m_time := clock ev, tx_count := 0\<rparr>))
                   (Some ''Blynk server is offline''))
            = trace s1 @ (if wdt s1 then [WdtFeed] else [])
              @ [ConnClose, Print ''Error: Blynk server is offline, connection closed''])"
proof -
  have A: "\<forall>i j. i < j \<and> j < length (ping_times s0 evs) \<longrightarrow>
       ping_times s0 evs ! j - ping_times s0 evs ! i \<ge> HB_PERIOD"
    using gaps_ok_nth [OF gaps_ok_ping_times [of s0 evs]] by blast
  have B: "inner_iter s ev =
          Inr (True, close (feed (s1\<lparr>m_time := clock ev, tx_count := 0\<rparr>))
                       (Some ''Blynk server is offline''))"
    if p: "inner_iter sk evk = Inr (False, sp)"
      and f: "frames MSG_PING sp \<noteq> frames MSG_PING sk"
      and z: "last_ping_id sp \<noteq> 0"
      and l: "inner_loop sp evs2 = Inr (False, s)"
      and u: "unacked sp evs2 (last_ping_id sp)"
      and d: "dispatch s ev = Inr (False, s1)"
      and n: "\<not> acks s ev (last_ping_id sp)"
      and t: "clock ev - clock evk \<ge> MAX_SOCK_TO"
  proof -
    from inner_iter_pinged [OF p f]
    have sp: "hb_time sp = clock evk" "m_time sp = clock evk" "last_hb_id sp = last_ping_id sp"
      by simp_all
    from inner_loop_keeps [OF l] u z sp
    have s: "last_hb_id s = last_ping_id sp" "hb_time s = clock evk"
      "m_time s - hb_time s < MAX_SOCK_TO" by simp_all
    from dispatch_heartbeat [OF d] n s
    have s1: "last_hb_id s1 = last_ping_id sp" "hb_time s1 = clock evk" "m_time s1 = m_time s"
      by auto
    with s t have m: "m_time s1 \<noteq> clock ev" by simp
    from s1 z have o: "last_hb_id s1 \<noteq> 0" by simp
    from s1 t have t': "clock ev - hb_time s1 \<ge> MAX_SOCK_TO" by simp
    from server_alive_offline [OF m o t', of "tx2 ev"] d
    show ?thesis by (simp add: inner_iter_def)
  qed
  have C: "state (close (feed (s1\<lparr>m_time := clock ev, tx_count := 0\<rparr>))
                   (Some ''Blynk server is offline'')) = DISCONNECTED"
    by simp
  have D: "trace (close (feed (s1\<lparr>m_time := clock ev, tx_count := 0\<rparr>))
                   (Some ''Blynk server is offline''))
            = trace s1 @ (if wdt s1 then [WdtFeed] else [])
              @ [ConnClose, Print ''Error: Blynk server is offline, connection closed'']"
    by (simp add: close_def feed_def emit_def Let_def)
  from A B C D show ?thesis by blast
qed

theorem heartbeat_monitor_witness:
  "ping_times (session_init demo) [env_tick 1000, env_ack, env_tick 1010] = [1000, 1010]
   \<and> ping_times (session_init demo) [env_tick 1000, env_ack, env_tick 1010] ! 1
       - ping_times (session_init demo) [env_tick 1000, env_ack, env_tick 1010] ! 0 \<ge> 10
   \<and> map_sum fst fst (inner_iter
         (snd (projr (inner_loop (session_init demo) [env_tick 1000, env_tick 1002])))
         (env_tick 1005)) = Inr True
   \<and> state (snd (projr (inner_iter
         (snd (projr (inner_loop (session_init demo) [env_tick 1000, env_tick 1002])))
         (env_tick 1005)))) = DISCONNECTED
   \<and> trace (snd (projr (inner_iter
         (snd (projr (inner_loop (session_init demo) [env_tick 1000, env_tick 1002])))
         (env_tick 1005))))
       = trace (snd (projr (inner_loop (session_init demo) [env_tick 1000, env_tick 1002])))
         @ [WdtFeed, ConnClose, Print ''Error: Blynk server is offline, connection closed'']"
proof -
  let ?evs = "[env_tick 1000, env_ack, env_tick 1010]"
  let ?P = "snd (projr (inner_iter (session_init demo) (env_tick 1000)))"
  let ?S = "snd (projr (inner_loop ?P [env_tick 1002]))"
  let ?S1 = "snd (projr (dispatch ?S (env_tick 1005)))"
  have pt: "ping_times (session_init demo) ?evs = [1000, 1010]" by code_simp
  from heartbeat_monitor [of "session_init demo" ?evs]
  have "0 < (1::nat) \<and> 1 < length (ping_times (session_init demo) ?evs) \<longrightarrow>
          ping_times (session_init demo) ?evs ! 1 - ping_times (session_init demo) ?evs ! 0 \<ge> 10"
    by blast
  with pt have gap: "ping_times (session_init demo) ?evs ! 1
                     - ping_times (session_init demo) ?evs ! 0 \<ge> 10" by simp
  have "map_sum fst fst (inner_iter (session_init demo) (env_tick 1000)) = Inr False"
    by code_simp
  then have p: "inner_iter (session_init demo) (env_tick 1000) = Inr (False, ?P)"
    by (rule received)
  have f: "frames MSG_PING ?P \<noteq> frames MSG_PING (session_init demo)" by code_simp
  have z: "last_ping_id ?P \<noteq> 0" by code_simp
  have "map_sum fst fst (inner_loop ?P [env_tick 1002]) = Inr False" by code_simp
  then have l: "inner_loop ?P [env_tick 1002] = Inr (False, ?S)" by (rule received)
  have u: "unacked ?P [env_tick 1002] (last_ping_id ?P)" by code_simp
  have "map_sum fst fst (dispatch ?S (env_tick 1005)) = Inr False" by code_simp
  then have d: "dispatch ?S (env_tick 1005) = Inr (False, ?S1)" by (rule received)
  have n: "\<not> acks ?S (env_tick 1005) (last_ping_id ?P)" by code_simp
  have t: "clock (env_tick 1005) - clock (env_tick 1000) \<ge> 5" by code_simp
  have w: "wdt ?S1" by code_simp
  have e: "trace ?S1 = trace ?S" by code_simp
  have q: "inner_loop (session_init demo) [env_tick 1000, env_tick 1002] = inner_loop ?P [env_tick 1002]"
    using p by (cases "inner_iter (session_init demo) (env_tick 1000)") auto
  from heartbeat_monitor [of _ _ "session_init demo" "env_tick 1000" ?P "[env_tick 1002]" ?S
      "env_tick 1005" ?S1] p f z l u d n t
  have i: "inner_iter ?S (env_tick 1005) =
          Inr (True, close (feed (?S1\<lparr>m_time := clock (env_tick 1005), tx_count := 0\<rparr>))
                       (Some ''Blynk server is offline''))
        \<and> state (close (feed (?S1\<lparr>m_time := clock (env_tick 1005), tx_count := 0\<rparr>))
                   (Some ''Blynk server is offline'')) = DISCONNECTED
        \<and> trace (close (feed (?S1\<lparr>m_time := clock (env_tick 1005), tx_count := 0\<rparr>))
                   (Some ''Blynk server is offline''))
            = trace ?S1 @ (if wdt ?S1 then [WdtFeed] else [])
              @ [ConnClose, Print ''Error: Blynk server is offline, connection closed'']"
    by blast
  with w e q pt gap show ?thesis by simp
qed

theorem heartbeat_monitor_counterexample:
  "ping_times (session_init demo) [env_tick 1000, env_tick 1004, env_late] = [1000]
   \<and> last_ping_id (snd (projr (inner_loop (session_init demo) [env_tick 1000, env_tick 1004]))) = 4
   \<and> last_hb_id (snd (projr (inner_loop (session_init demo) [env_tick 1000, env_tick 1004]))) = 4
   \<and> clock env_late = 1008
   \<and> handled (snd (projr (inner_loop (session_init demo) [env_tick 1000, env_tick 1004]))) env_late
       = Some (MSG_RSP, 4, 200)
   \<and> map_sum fst fst (inner_loop (session_init demo) [env_tick 1000, env_tick 1004, env_late])
       = Inr False
   \<and> state (snd (projr (inner_loop (session_init demo)
               [env_tick 1000, env_tick 1004, env_late]))) = AUTHENTICATED
   \<and> closes (snd (projr (inner_loop (session_init demo)
               [env_tick 1000, env_tick 1004, env_late]))) = 0
   \<and> map_sum fst fst (inner_loop (session_init demo)
         [env_tick 1000, env_tick 1001, env_tick 1002, env_tick 1003, env_tick 1004,
          env_rx [0, 0, 4, 0, 200] [] 1005, env_tick 1006]) = Inr False
   \<and> closes (snd (projr (inner_loop (session_init demo)
         [env_tick 1000, env_tick 1001, env_tick 1002, env_tick 1003, env_tick 1004,
          env_rx [0, 0, 4, 0, 200] [] 1005, env_tick 1006]))) = 0"
  by code_simp

subsection \<open>The rate limiter and the clock\<close>

lemma wire_simps [simp]:
  "filter (is_frame MSG_HW) es = [] \<Longrightarrow> wire (emit s es) = wire s"
  "wire (s\<lparr>hw_pins := hp\<rparr>) = wire s"
  "wire (s\<lparr>pins_configured := b\<rparr>) = wire s"
  "wire (s\<lparr>rx_data := d\<rparr>) = wire s"
  "wire (s\<lparr>start_time := x\<rparr>) = wire s"
  "wire (s\<lparr>last_hb_id := i\<rparr>) = wire s"
  "wire (snd (new_msg_id s)) = wire s"
  "wire (settimeout s t) = wire s"
  "wire (run_task s t) = wire s"
  "wire (close s m) = wire s"
  by (simp_all add: wire_def frames_def emit_def new_msg_id_def settimeout_def run_task_def
      close_def is_frame_def Let_def split: option.splits)

lemma wire_fields:
  "wire x = wire y \<Longrightarrow>
     quota x = quota y \<and> frames MSG_HW x = frames MSG_HW y \<and> tx_count x = tx_count y"
  by (simp add: wire_def quota_def)

lemma quota_simps [simp]:
  "filter (is_frame MSG_HW) es = [] \<Longrightarrow> quota (emit s es) = quota s"
  "quota (s\<lparr>pins_configured := b\<rparr>) = quota s"
  "quota (s\<lparr>start_time := x\<rparr>) = quota s"
  "quota (s\<lparr>last_hb_id := i\<rparr>) = quota s"
  "quota (run_task s t) = quota s"
  "quota (close s m) = quota s"
  "frames ty (s\<lparr>pins_configured := b\<rparr>) = frames ty s"
  "frames ty (s\<lparr>start_time := x\<rparr>) = frames ty s"
  "frames ty (s\<lparr>last_hb_id := i\<rparr>) = frames ty s"
  by (simp_all add: quota_def frames_def emit_def run_task_def close_def is_frame_def Let_def
      split: option.splits)

lemma pm_loop_after: "wire (after (pm_loop s ps)) = wire s"
  by (induction s ps rule: pm_loop.induct) (auto simp: after_def split: sum.splits)

lemma pm_loop_wire:
  "pm_loop s ps = Inr s' \<Longrightarrow> wire s' = wire s"
  "pm_loop s ps = Inl (e, s') \<Longrightarrow> wire s' = wire s"
  using pm_loop_after [of s ps] by (simp_all add: after_def)

lemma set_function_wire:
  "set_function s k p f = Inr (b, s') \<Longrightarrow> wire s' = wire s"
  "set_function s k p f = Inl (e, s') \<Longrightarrow> wire s' = wire s"
  by (auto simp: set_function_def config_def Let_def split: if_splits sum.splits option.splits)

lemma hw_ops_wire:
  "digital_read s k p rd = Inr (v, s') \<Longrightarrow> wire s' = wire s"
  "digital_read s k p rd = Inl (e, s') \<Longrightarrow> wire s' = wire s"
  "analog_read s k p rd = Inr (v, s') \<Longrightarrow> wire s' = wire s"
  "analog_read s k p rd = Inl (e, s') \<Longrightarrow> wire s' = wire s"
  "digital_write s k p x = Inr s' \<Longrightarrow> wire s' = wire s"
  "digital_write s k p x = Inl (e, s') \<Longrightarrow> wire s' = wire s"
  "analog_write s k p x = Inr s' \<Longrightarrow> wire s' = wire s"
  "analog_write s k p x = Inl (e, s') \<Longrightarrow> wire s' = wire s"
  by (auto simp: digital_read_def analog_read_def digital_write_def analog_write_def
      split: sum.splits if_splits dest!: set_function_wire)

lemma format_msg_wire:
  "format_msg s t args = Inr (m, s') \<Longrightarrow> wire s' = wire s"
  "format_msg s t args = Inl (e, s') \<Longrightarrow> wire s' = wire s"
  by (auto simp: format_msg_def Let_def split_def split: sum.splits)

lemma recv_wire:
  "recv s n t r = Inr (d, s') \<Longrightarrow> wire s' = wire s"
  "recv s n t r = Inl (e, s') \<Longrightarrow> wire s' = wire s"
  by (auto simp: recv_def Let_def split: recv_result.splits if_splits)

lemma send_spends:
  assumes "\<not> a \<or> \<not> is_frame MSG_HW (ConnSend d)"
  shows "quota (after (send s d a outs)) \<le> quota s
       \<and> frames MSG_HW (after (send s d a outs)) \<le> frames MSG_HW s + 1"
proof -
  from send_cases [of s d a outs] show ?thesis
  proof (elim disjE exE)
    assume "send s d a outs = Inr s"
    then show ?thesis by (simp add: after_def)
  next
    assume t: "send s d a outs = Inr (emit (s\<lparr>tx_count := tx_count s + 1\<rparr>) [ConnSend d])"
    show ?thesis
    proof (cases a)
      case True
      with assms t show ?thesis by (simp add: after_def quota_def)
    next
      case False
      with t have "tx_count s < 20"
        using counted_neq [of s "[ConnSend d]"] by (auto simp: send_def split: if_splits)
      with t show ?thesis by (simp add: after_def quota_def)
    qed
  next
    fix e assume "send s d a outs = Inl (OSError e, s)"
    then show ?thesis by (simp add: after_def)
  qed
qed

lemma send_ordinary:
  "send s d False outs = Inr s' \<Longrightarrow>
     quota s' \<le> quota s \<and> frames MSG_HW s' \<le> frames MSG_HW s + 1"
  "send s d False outs = Inl (e, s') \<Longrightarrow>
     quota s' \<le> quota s \<and> frames MSG_HW s' \<le> frames MSG_HW s + 1"
  using send_spends [of False d s outs] by (simp_all add: after_def)

lemma handle_hw_spends:
  "quota (after (handle_hw s data rd outs)) \<le> quota s
   \<and> frames MSG_HW (after (handle_hw s data rd outs)) \<le> frames MSG_HW s + 1"
proof (cases "map_err decode_ascii (split_on 0 data)")
  case (Inl e)
  then show ?thesis by (simp add: handle_hw_def after_def)
next
  case (Inr ps)
  show ?thesis
  proof (cases ps)
    case Nil
    with Inr show ?thesis by (simp add: handle_hw_def after_def)
  next
    case (Cons cmd params)
    with Inr have d: "map_err decode_ascii (split_on 0 data) = Inr (cmd # params)" by simp
    let ?s = "emit s [PrintParams params]"
    let ?r = "handle_hw s data rd outs"
    have w0: "quota ?s = quota s" "frames MSG_HW ?s = frames MSG_HW s"
      by (simp_all add: quota_def)
    consider (info) "cmd = ''info''" | (pm) "cmd = ''pm''" | (vw) "cmd = ''vw''"
      | (vr) "cmd = ''vr''" | (dw) "cmd = ''dw''" | (aw) "cmd = ''aw''" | (dr) "cmd = ''dr''"
      | (ar) "cmd = ''ar''"
      | (other) "cmd \<notin> set vocabulary" by (auto simp: vocabulary_def)
    then have "quota (after ?r) \<le> quota ?s \<and> frames MSG_HW (after ?r) \<le> frames MSG_HW ?s + 1"
    proof cases
      case info
      with d show ?thesis by (simp add: handle_hw_def after_def)
    next
      case pm
      with d show ?thesis
        by (auto simp: handle_hw_def Let_def after_def split: sum.splits
            dest!: pm_loop_wire wire_fields)
    next
      case vw
      with d show ?thesis
        by (auto simp: handle_hw_def Let_def pop_int_def after_def quota_def
            split: sum.splits list.splits option.splits)
    next
      case vr
      with d show ?thesis
        by (auto simp: handle_hw_def Let_def pop_int_def after_def quota_def
            split: sum.splits list.splits option.splits)
    next
      case dw
      with d show ?thesis
        by (auto simp: handle_hw_def Let_def pop_int_def get_hw_pin_def after_def
            split: sum.splits list.splits option.splits if_splits
            dest!: hw_ops_wire wire_fields)
    next
      case aw
      with d show ?thesis
        by (auto simp: handle_hw_def Let_def pop_int_def get_hw_pin_def after_def
            split: sum.splits list.splits option.splits if_splits
            dest!: hw_ops_wire wire_fields)
    next
      case dr
      with d show ?thesis
        by (auto simp: handle_hw_def Let_def pop_int_def get_hw_pin_def after_def
            split: sum.splits list.splits option.splits if_splits
            dest!: hw_ops_wire format_msg_wire wire_fields send_ordinary)
    next
      case ar
      with d show ?thesis
        by (auto simp: handle_hw_def Let_def pop_int_def get_hw_pin_def after_def
            split: sum.splits list.splits option.splits if_splits
            dest!: hw_ops_wire format_msg_wire wire_fields send_ordinary)
    next
      case other
      from handle_hw_unknown [OF d other, of s rd outs] show ?thesis
        by (auto simp: after_def)
    qed
    with w0 show ?thesis by simp
  qed
qed

lemma frames_le_quota: "int (frames MSG_HW s) \<le> quota s"
  by (simp add: quota_def)

lemma dispatch_spends:
  "quota (final (dispatch s ev)) \<le> quota s
   \<and> frames MSG_HW (final (dispatch s ev)) \<le> frames MSG_HW s + 1"
proof (cases "recv s 5 0 (rx_hdr ev)")
  case (Inl x)
  obtain e s1 where x: "x = (e, s1)" by (cases x) auto
  from recv_wire(2) [OF Inl [unfolded x], THEN wire_fields] Inl x show ?thesis
    by (simp add: dispatch_def final_def)
next
  case (Inr x)
  obtain data s1 where x: "x = (data, s1)" by (cases x) auto
  with Inr have r: "recv s 5 0 (rx_hdr ev) = Inr (data, s1)" by simp
  note w1 = recv_wire(1) [OF r, THEN wire_fields]
  show ?thesis
  proof (cases "data = []")
    case True
    with r w1 show ?thesis by (simp add: dispatch_def final_def)
  next
    case ne: False
    show ?thesis
    proof (cases "unpack_hdr data")
      case (Inl e)
      with r ne w1 show ?thesis by (simp add: dispatch_def final_def)
    next
      case (Inr h)
      obtain t mid len where h: "h = (t, mid, len)" by (cases h) auto
      with Inr have u: "unpack_hdr data = Inr (t, mid, len)" by simp
      from r ne u have d: "dispatch s ev =
         (if mid = 0 then Inr (True, close s1 (Some (''invalid msg id '' @ str_int mid)))
          else if t = MSG_RSP then
            Inr (False, if mid = last_hb_id s1 then s1\<lparr>last_hb_id := 0\<rparr> else s1)
          else if t = MSG_PING then
            (case pack_hdr MSG_RSP mid STA_SUCCESS of
               Inl e \<Rightarrow> Inl (e, s1)
             | Inr h \<Rightarrow>
                 (case send s1 h True (tx1 ev) of
                    Inl e \<Rightarrow> Inl e
                  | Inr s2 \<Rightarrow> Inr (False, s2)))
          else if t = MSG_HW \<or> t = MSG_BRIDGE then
            (case recv s1 (nat len) MIN_SOCK_TO (rx_body ev) of
               Inl e \<Rightarrow> Inl e
             | Inr (body, s2) \<Rightarrow>
                 if body \<noteq> [] then
                   (case handle_hw s2 body (pin_in ev) (tx1 ev) of
                      Inl e \<Rightarrow> Inl e
                    | Inr s3 \<Rightarrow> Inr (False, s3))
                 else Inr (False, s2))
          else Inr (True, close s1 (Some (''unknown message type '' @ str_int t))))"
        by (simp add: dispatch_def)
      consider (zero) "mid = 0" | (rsp) "mid \<noteq> 0" "t = MSG_RSP" | (ping) "mid \<noteq> 0" "t = MSG_PING"
        | (hw) "mid \<noteq> 0" "t = MSG_HW \<or> t = MSG_BRIDGE"
        | (unknown) "mid \<noteq> 0" "t \<noteq> MSG_RSP" "t \<noteq> MSG_PING" "t \<noteq> MSG_HW" "t \<noteq> MSG_BRIDGE"
        by auto
      then have "quota (final (dispatch s ev)) \<le> quota s1
           \<and> frames MSG_HW (final (dispatch s ev)) \<le> frames MSG_HW s1 + 1"
      proof cases
        case zero
        with d show ?thesis by (simp add: final_def)
      next
        case rsp
        with d show ?thesis by (simp add: final_def)
      next
        case ping
        show ?thesis
        proof (cases "pack_hdr MSG_RSP mid STA_SUCCESS")
          case (Inl e)
          with d ping show ?thesis by (simp add: final_def)
        next
          case (Inr h)
          then have "\<not> is_frame MSG_HW (ConnSend h)"
            by (auto simp: pack_hdr_def is_frame_def split: if_splits)
          from send_spends [of True h s1 "tx1 ev"] this
          have "quota (after (send s1 h True (tx1 ev))) \<le> quota s1
              \<and> frames MSG_HW (after (send s1 h True (tx1 ev))) \<le> frames MSG_HW s1 + 1"
            by simp
          moreover from d ping Inr
          have "final (dispatch s ev) = after (send s1 h True (tx1 ev))"
            by (auto simp: final_def after_def split: sum.splits)
          ultimately show ?thesis by simp
        qed
      next
        case hw
        show ?thesis
        proof (cases "recv s1 (nat len) MIN_SOCK_TO (rx_body ev)")
          case (Inl y)
          obtain e s2 where y: "y = (e, s2)" by (cases y) auto
          from recv_wire(2) [OF Inl [unfolded y], THEN wire_fields] d hw Inl y show ?thesis
            by (auto simp: final_def)
        next
          case (Inr y)
          obtain body s2 where y: "y = (body, s2)" by (cases y) auto
          with Inr have rb: "recv s1 (nat len) MIN_SOCK_TO (rx_body ev) = Inr (body, s2)"
            by simp
          note w2 = recv_wire(1) [OF rb, THEN wire_fields]
          show ?thesis
          proof (cases "body = []")
            case True
            with d hw rb w2 show ?thesis by (auto simp: final_def)
          next
            case False
            with d hw rb
            have "final (dispatch s ev) = after (handle_hw s2 body (pin_in ev) (tx1 ev))"
              by (auto simp: final_def after_def split: sum.splits)
            with handle_hw_spends [of s2 body "pin_in ev" "tx1 ev"] w2 show ?thesis by simp
          qed
        qed
      next
        case unknown
        with d show ?thesis by (simp add: final_def)
      qed
      with w1 show ?thesis by simp
    qed
  qed
qed

lemma server_alive_same: "m_time s = c \<Longrightarrow> server_alive s c outs = Inr (True, s)"
  by (simp add: server_alive_def)

lemma server_alive_reset:
  assumes new: "m_time s \<noteq> c"
  shows "m_time (final (server_alive s c outs)) = c
       \<and> (tx_count (final (server_alive s c outs)) = 0
          \<or> tx_count (final (server_alive s c outs)) = 1)
       \<and> frames MSG_HW (final (server_alive s c outs)) = frames MSG_HW s"
proof -
  let ?s1 = "feed (s\<lparr>m_time := c, tx_count := 0\<rparr>)"
  have f1: "hb_time ?s1 = hb_time s" "last_hb_id ?s1 = last_hb_id s" "m_time ?s1 = c"
    "frames MSG_HW ?s1 = frames MSG_HW s" "state ?s1 = state s" "tx_count ?s1 = 0"
    by (simp_all add: feed_def emit_def frames_def is_frame_def)
  show ?thesis
  proof (cases "last_hb_id s \<noteq> 0 \<and> c - hb_time s \<ge> MAX_SOCK_TO")
    case True
    with new f1 have "server_alive s c outs = Inr (False, ?s1)"
      by (auto simp: server_alive_def Let_def)
    with f1 show ?thesis by (simp add: final_def)
  next
    case live: False
    show ?thesis
    proof (cases "c - hb_time s \<ge> HB_PERIOD \<and> state s = AUTHENTICATED")
      case False
      with new live f1 have "server_alive s c outs = Inr (True, ?s1)"
        by (auto simp: server_alive_def Let_def)
      with f1 show ?thesis by (simp add: final_def)
    next
      case True
      let ?i = "fst (new_msg_id (?s1\<lparr>hb_time := c\<rparr>))"
      let ?s3 = "(snd (new_msg_id (?s1\<lparr>hb_time := c\<rparr>)))\<lparr>last_hb_id := ?i\<rparr>"
      have f3: "m_time ?s3 = c" "tx_count ?s3 = 0" "frames MSG_HW ?s3 = frames MSG_HW s"
        by (simp_all add: new_msg_id_def Let_def feed_def emit_def frames_def is_frame_def)
      from new live True f1 have sa: "server_alive s c outs =
          (case pack_hdr MSG_PING ?i 0 of
             Inl e \<Rightarrow> Inl (e, ?s3)
           | Inr h \<Rightarrow> (case send ?s3 h True outs of Inl e \<Rightarrow> Inl e | Inr s4 \<Rightarrow> Inr (True, s4)))"
        by (auto simp: server_alive_def Let_def split_def)
      show ?thesis
      proof (cases "pack_hdr MSG_PING ?i 0")
        case (Inl e)
        with sa f3 show ?thesis by (simp add: final_def)
      next
        case (Inr h)
        then have nf: "\<not> is_frame MSG_HW (ConnSend h)"
          by (auto simp: pack_hdr_def is_frame_def split: if_splits)
        from sa Inr have fa: "final (server_alive s c outs) = after (send ?s3 h True outs)"
          by (auto simp: final_def after_def split: sum.splits)
        from send_cases [of ?s3 h True outs]
        have "after (send ?s3 h True outs) = ?s3
            \<or> after (send ?s3 h True outs) = emit (?s3\<lparr>tx_count := tx_count ?s3 + 1\<rparr>) [ConnSend h]"
          by (auto simp: after_def)
        then show ?thesis unfolding fa using f3 nf by (auto simp: emit_def frames_def)
      qed
    qed
  qed
qed

lemma inner_iter_same:
  assumes m: "m_time s = clock ev"
  shows "quota (final (inner_iter s ev)) \<le> quota s
       \<and> (\<forall>s'. inner_iter s ev = Inr (False, s') \<longrightarrow> m_time s' = clock ev)"
proof (cases "dispatch s ev")
  case (Inl e)
  with dispatch_spends [of s ev] show ?thesis by (simp add: inner_iter_def final_def)
next
  case (Inr x)
  obtain b1 s1 where x: "x = (b1, s1)" by (cases x) auto
  with Inr have d: "dispatch s ev = Inr (b1, s1)" by simp
  from dispatch_spends [of s ev] d have q: "quota s1 \<le> quota s" by (simp add: final_def)
  show ?thesis
  proof (cases b1)
    case True
    with d q show ?thesis by (simp add: inner_iter_def final_def)
  next
    case False
    from dispatch_heartbeat [OF d] m have "m_time s1 = clock ev" by simp
    from server_alive_same [OF this, of "tx2 ev"] d False q this show ?thesis
      by (simp add: inner_iter_def final_def)
  qed
qed

lemma inner_iter_new:
  assumes m: "m_time s \<noteq> clock ev"
  shows "frames MSG_HW (final (inner_iter s ev)) \<le> frames MSG_HW s + 1
       \<and> (\<forall>s'. inner_iter s ev = Inr (False, s') \<longrightarrow>
             m_time s' = clock ev \<and> quota s' \<le> int (frames MSG_HW s) + 21)"
proof (cases "dispatch s ev")
  case (Inl e)
  with dispatch_spends [of s ev] show ?thesis by (simp add: inner_iter_def final_def)
next
  case (Inr x)
  obtain b1 s1 where x: "x = (b1, s1)" by (cases x) auto
  with Inr have d: "dispatch s ev = Inr (b1, s1)" by simp
  from dispatch_spends [of s ev] d have q: "frames MSG_HW s1 \<le> frames MSG_HW s + 1"
    by (simp add: final_def)
  show ?thesis
  proof (cases b1)
    case True
    with d q show ?thesis by (simp add: inner_iter_def final_def)
  next
    case False
    from dispatch_heartbeat [OF d] m have "m_time s1 \<noteq> clock ev" by simp
    note sr = server_alive_reset [OF this, of "tx2 ev"]
    show ?thesis
    proof (cases "server_alive s1 (clock ev) (tx2 ev)")
      case (Inl e)
      with d False sr q show ?thesis by (simp add: inner_iter_def final_def)
    next
      case (Inr y)
      obtain alive s2 where y: "y = (alive, s2)" by (cases y) auto
      with Inr sr have s2: "m_time s2 = clock ev" "tx_count s2 = 0 \<or> tx_count s2 = 1"
        "frames MSG_HW s2 = frames MSG_HW s1" by (simp_all add: final_def)
      then have "quota s2 \<le> int (frames MSG_HW s1) + 20" by (auto simp: quota_def)
      with d False Inr y s2 q show ?thesis
        by (auto simp: inner_iter_def final_def)
    qed
  qed
qed

lemma inner_loop_same:
  "m_time s = c \<Longrightarrow> \<forall>ev \<in> set evs. clock ev = c \<Longrightarrow>
   int (frames MSG_HW (final (inner_loop s evs))) \<le> quota s"
proof (induction evs arbitrary: s)
  case Nil
  then show ?case using frames_le_quota [of s] by (simp add: final_def)
next
  case (Cons ev evs)
  from Cons.prems have m: "m_time s = clock ev" by simp
  note st = inner_iter_same [OF m]
  show ?case
  proof (cases "inner_iter s ev")
    case (Inl e)
    with st frames_le_quota [of "final (inner_iter s ev)"] show ?thesis
      by (simp add: final_def)
  next
    case (Inr x)
    obtain brk s' where x: "x = (brk, s')" by (cases x) auto
    show ?thesis
    proof (cases brk)
      case True
      with Inr x st frames_le_quota [of s'] show ?thesis by (simp add: final_def)
    next
      case False
      with Inr x st have "m_time s' = c" "quota s' \<le> quota s"
        using Cons.prems by (simp_all add: final_def)
      with Cons.IH [of s'] Cons.prems Inr x False show ?thesis by simp
    qed
  qed
qed

lemma inner_loop_second:
  assumes z: "0 \<le> tx_count s" and c: "\<forall>ev \<in> set evs. clock ev = c"
  shows "frames MSG_HW (final (inner_loop s evs)) \<le> frames MSG_HW s + 21"
proof (cases "m_time s = c")
  case True
  from inner_loop_same [OF True c] z show ?thesis by (simp add: quota_def)
next
  case new: False
  show ?thesis
  proof (cases evs)
    case Nil
    then show ?thesis by (simp add: final_def)
  next
    case (Cons ev evs')
    with c new have m: "m_time s \<noteq> clock ev" and c': "\<forall>ev \<in> set evs'. clock ev = c"
      and ce: "clock ev = c" by simp_all
    note st = inner_iter_new [OF m]
    show ?thesis
    proof (cases "inner_iter s ev")
      case (Inl e)
      with st Cons show ?thesis by (simp add: final_def)
    next
      case (Inr x)
      obtain brk s' where x: "x = (brk, s')" by (cases x) auto
      show ?thesis
      proof (cases brk)
        case True
        with Inr x st Cons show ?thesis by (simp add: final_def)
      next
        case False
        with Inr x st ce have "m_time s' = c" "quota s' \<le> int (frames MSG_HW s) + 21"
          by (simp_all add: final_def)
        with inner_loop_same [OF this(1) c'] Inr x False Cons show ?thesis by simp
      qed
    qed
  qed
qed

text \<open>
  C6, as the code has it. A send is accepted when its data is handed to the socket. The
  limiter counts sends, not seconds: between two resets of \<^verbatim>\<open>_tx_count\<close> (a sequence of
  sends from a counter at 0, whatever the socket answers) at most 20 sends that are not
  marked send-anyway are accepted, and a send marked send-anyway is accepted whatever
  the counter is, as soon as the socket takes the data on one of the four attempts of
  the retry loop. The counter follows the clock through \<^verbatim>\<open>_server_alive\<close> alone: a call
  that reads the second it has stored changes nothing; a call that reads another second
  stores it and leaves the counter at 0, or at 1 when it has just sent its ping; and the
  counter is 0 when a session starts. \<^verbatim>\<open>_server_alive\<close> is called after the frame of the
  iteration has been handled, so the reply sent by the first iteration that reads a new
  second is counted in the old window: consecutive iterations of the inner loop that
  all read the same second hand at most 21 hardware frames to the socket, and 21 is
  reached. The claim, with its 20 for each wall-clock second, fails there.
\<close>

theorem rate_limit:
  "(tx_count s = 0 \<longrightarrow> length (filter Not (sent_flags s cs)) \<le> 20)
   \<and> (takes_at outs k \<longrightarrow>
        send s data True outs = Inr (emit (s\<lparr>tx_count := tx_count s + 1\<rparr>) [ConnSend data]))
   \<and> (m_time s = c \<longrightarrow> server_alive s c outs' = Inr (True, s))
   \<and> (m_time s \<noteq> c \<longrightarrow>
        m_time (final (server_alive s c outs')) = c
        \<and> (tx_count (final (server_alive s c outs')) = 0
           \<or> tx_count (final (server_alive s c outs')) = 1))
   \<and> tx_count (session_init s) = 0
   \<and> (0 \<le> tx_count s \<and> (\<forall>ev \<in> set evs. clock ev = c) \<longrightarrow>
        frames MSG_HW (final (inner_loop s evs)) \<le> frames MSG_HW s + 21)"
proof -
  have "tx_count s = 0 \<longrightarrow> length (filter Not (sent_flags s cs)) \<le> 20"
    using ordinary_bound [of s cs] by auto
  moreover have "takes_at outs k \<longrightarrow>
        send s data True outs = Inr (emit (s\<lparr>tx_count := tx_count s + 1\<rparr>) [ConnSend data])"
    using send_loop_takes [of outs k 0 s data] by (simp add: send_def)
  moreover have "m_time s = c \<longrightarrow> server_alive s c outs' = Inr (True, s)"
    using server_alive_same by blast
  moreover have "m_time s \<noteq> c \<longrightarrow>
        m_time (final (server_alive s c outs')) = c
        \<and> (tx_count (final (server_alive s c outs')) = 0
           \<or> tx_count (final (server_alive s c outs')) = 1)"
    using server_alive_reset [of s c outs'] by blast
  moreover have "tx_count (session_init s) = 0" by (simp add: session_init_def)
  moreover have "0 \<le> tx_count s \<and> (\<forall>ev \<in> set evs. clock ev = c) \<longrightarrow>
        frames MSG_HW (final (inner_loop s evs)) \<le> frames MSG_HW s + 21"
    using inner_loop_second [of s evs c] by blast
  ultimately show ?thesis by blast
qed

theorem rate_limit_witness:
  "tx_count demo = 0
   \<and> sent_flags demo (replicate 21 call_ordinary @ [call_anyway]) = replicate 20 False @ [True]
   \<and> length (filter Not (sent_flags demo (replicate 21 call_ordinary @ [call_anyway]))) \<le> 20
   \<and> takes_at (\<lambda>_. SendOk) 0
   \<and> map_sum fst tx_count (send (demo\<lparr>tx_count := 25\<rparr>) [2] True (\<lambda>_. SendOk)) = Inr 26
   \<and> m_time demo = 0
   \<and> server_alive demo 0 (\<lambda>_. SendOk) = Inr (True, demo)
   \<and> m_time (final (server_alive demo 1000 (\<lambda>_. SendOk))) = 1000
   \<and> tx_count (final (server_alive demo 1000 (\<lambda>_. SendOk))) = 1
   \<and> tx_count (after (run_steps (run_init (Blynk_init [65, 66]) 0) [env_login, env_pm])) = 1
   \<and> clock (env_dr 1001) = 1001
   \<and> frames MSG_HW (final (inner_loop
          (after (run_steps (run_init (Blynk_init [65, 66]) 0) [env_login, env_pm]))
          (replicate 22 (env_dr 1001))))
       \<le> frames MSG_HW (after (run_steps (run_init (Blynk_init [65, 66]) 0)
                                  [env_login, env_pm])) + 21"
proof -
  let ?S = "after (run_steps (run_init (Blynk_init [65, 66]) 0) [env_login, env_pm])"
  have a: "tx_count demo = 0" by (simp add: demo_defs)
  have b: "sent_flags demo (replicate 21 call_ordinary @ [call_anyway]) = replicate 20 False @ [True]"
    by code_simp
  have c: "takes_at (\<lambda>_. SendOk) 0" by (simp add: takes_at_def)
  have m: "m_time demo = 0" "m_time demo \<noteq> 1000" by (simp_all add: demo_defs)
  have x: "tx_count (final (server_alive demo 1000 (\<lambda>_. SendOk))) = 1" by code_simp
  have z: "tx_count ?S = 1" by code_simp
  have e: "\<forall>ev \<in> set (replicate 22 (env_dr 1001)). clock ev = 1001"
    by (simp add: env_dr_def env_rx_def)
  have e': "clock (env_dr 1001) = 1001" by (simp add: env_dr_def env_rx_def)
  from rate_limit [of demo "replicate 21 call_ordinary @ [call_anyway]" _ _ _ 0 "\<lambda>_. SendOk"]
    rate_limit [of "demo\<lparr>tx_count := 25\<rparr>" "[]" "\<lambda>_. SendOk" 0 "[2]"]
    rate_limit [of demo _ _ _ _ 1000 "\<lambda>_. SendOk"]
    rate_limit [of ?S _ _ _ _ 1001 _ "replicate 22 (env_dr 1001)"]
    a b c m x z e e'
  show ?thesis by (simp add: emit_def)
qed

theorem rate_limit_counterexample:
  "state (after (run_steps (run_init (Blynk_init [65, 66]) 0) [env_login, env_pm]))
     = AUTHENTICATED
   \<and> frames MSG_HW (after (run_steps (run_init (Blynk_init [65, 66]) 0) [env_login, env_pm])) = 0
   \<and> clock (env_dr 1001) = 1001
   \<and> frames MSG_HW (after (run_steps (run_init (Blynk_init [65, 66]) 0)
          ([env_login, env_pm] @ replicate 22 (env_dr 1001)))) = 21"
  by code_simp

end
